theory Spec2Isabelle
  imports Main "HOL-Library.Sublist" "HOL-Library.AList"
begin

text \<open>
  The starboard archiver of \<^verbatim>\<open>src/index.ts\<close>: it walks the history of a channel, recognises
  the starboard messages, resolves and downloads their attachments, and keeps a collection
  of archive records that it flushes to a snapshot file. The functions below follow the
  source function by function, under the names of the source.
\<close>

section \<open>JavaScript values and strings\<close>

text \<open>
  A JavaScript string is modelled as a \<^typ>\<open>string\<close> holding its UTF-8 bytes. Every string
  operation of \<^verbatim>\<open>index.ts\<close> (\<^verbatim>\<open>startsWith\<close>, \<^verbatim>\<open>endsWith\<close>, \<^verbatim>\<open>split\<close> at an ASCII
  character, \<^verbatim>\<open>slice(0, -6)\<close> after \<^verbatim>\<open>endsWith(':large')\<close>, \<^verbatim>\<open>length > 0\<close>, \<^verbatim>\<open>join\<close>)
  gives the same result on the bytes as on the UTF-16 code units of a well-formed string.

  \<^verbatim>\<open>undefined\<close> and \<^verbatim>\<open>null\<close> are two different values of JavaScript and are kept apart.
\<close>

datatype 'a maybe = Undefined | Null | Val 'a

text \<open>The outcome of an awaited promise of an external collaborator.\<close>

datatype 'a awaited = Rejected | Resolved 'a

definition startsWith :: "string \<Rightarrow> string \<Rightarrow> bool" where
  "startsWith s p = prefix p s"

definition endsWith :: "string \<Rightarrow> string \<Rightarrow> bool" where
  "endsWith s p = suffix p s"

text \<open>\<^verbatim>\<open>s.split(sep)\<close> for a one-character separator: never the empty array.\<close>

fun split :: "char \<Rightarrow> string \<Rightarrow> string list" where
  "split sep [] = [[]]"
| "split sep (c # cs) =
     (if c = sep then [] # split sep cs
      else (case split sep cs of [] \<Rightarrow> [[c]] | p # ps \<Rightarrow> (c # p) # ps))"

text \<open>\<^verbatim>\<open>xs[i]\<close>: \<^verbatim>\<open>undefined\<close> out of range.\<close>

definition index :: "'a list \<Rightarrow> nat \<Rightarrow> 'a maybe" where
  "index xs i = (if i < length xs then Val (xs ! i) else Undefined)"

text \<open>\<^verbatim>\<open>xs.pop()\<close> as an expression: the last element, \<^verbatim>\<open>undefined\<close> on the empty array.\<close>

definition pop :: "'a list \<Rightarrow> 'a maybe" where
  "pop xs = (case xs of [] \<Rightarrow> Undefined | _ \<Rightarrow> Val (last xs))"

text \<open>
  \<^verbatim>\<open>xs.join(sep)\<close>: \<^verbatim>\<open>null\<close> and \<^verbatim>\<open>undefined\<close> elements are written as the empty string.
\<close>

fun to_joined :: "string maybe \<Rightarrow> string" where
  "to_joined (Val s) = s"
| "to_joined Null = []"
| "to_joined Undefined = []"

fun join :: "string \<Rightarrow> string maybe list \<Rightarrow> string" where
  "join sep [] = []"
| "join sep [x] = to_joined x"
| "join sep (x # y # ys) = to_joined x @ sep @ join sep (y # ys)"

text \<open>Decimal digits, and the decimal text of a natural number.\<close>

definition is_digit :: "char \<Rightarrow> bool" where
  "is_digit c = (c \<in> set ''0123456789'')"

definition digit_char :: "nat \<Rightarrow> char" where
  "digit_char d = ''0123456789'' ! (d mod 10)"

fun show_nat :: "nat \<Rightarrow> string" where
  "show_nat n = (if n < 10 then [digit_char n] else show_nat (n div 10) @ [digit_char (n mod 10)])"

definition digit_val :: "char \<Rightarrow> nat" where
  "digit_val c = of_char c - 48"

definition nat_of_digits :: "string \<Rightarrow> nat" where
  "nat_of_digits ds = foldl (\<lambda>acc c. 10 * acc + digit_val c) 0 ds"

text \<open>
  A JavaScript number is an IEEE 754 double. \<open>round_double n\<close> is the value of the double
  nearest to the non-negative integer \<open>n\<close> (ties to the even significand of 53 bits): the
  integers below \<open>2 ^ 53\<close> are exact, larger ones keep their 53 leading bits. A result of
  \<open>2 ^ 1024\<close> or more stands for \<^verbatim>\<open>Infinity\<close>.
\<close>

fun bitlen :: "nat \<Rightarrow> nat" where
  "bitlen n = (if n = 0 then 0 else Suc (bitlen (n div 2)))"

definition round_double :: "nat \<Rightarrow> nat" where
  "round_double n =
     (if bitlen n \<le> 53 then n
      else let e = bitlen n - 53;
               q = n div 2 ^ e;
               r = n mod 2 ^ e;
               half = 2 ^ (e - 1)
           in (if r > half \<or> (r = half \<and> odd q) then q + 1 else q) * 2 ^ e)"

text \<open>
  The text of a number in a template string (\<^verbatim>\<open>Number::toString\<close>), for a double whose value
  is the non-negative integer \<open>v\<close>; a value of \<open>2 ^ 1024\<close> or more stands for \<^verbatim>\<open>Infinity\<close>.
  The text has the fewest significant digits \<open>s\<close> (\<open>k\<close> of them) such that \<open>s * 10 ^ (n - k)\<close>
  converts to the double, the nearest such value where there are several; up to \<open>n = 21\<close> it
  is these digits followed by zeros, beyond it the exponent form. An integer below \<open>2 ^ 53\<close>
  is written with all its decimal digits.
\<close>

fun decimal_length :: "nat \<Rightarrow> nat" where
  "decimal_length v = (if v < 10 then 1 else Suc (decimal_length (v div 10)))"

definition distance :: "nat \<Rightarrow> nat \<Rightarrow> nat" where
  "distance a b = (if a \<le> b then b - a else a - b)"

text \<open>
  The pairs \<open>(s, n)\<close> with \<open>k\<close> digits in \<open>s\<close> whose value \<open>s * 10 ^ (n - k)\<close> converts to the
  double \<open>v\<close> of \<open>d\<close> decimal digits: the two neighbours of \<open>v\<close> with \<open>k\<close> digits and, for one
  digit, the power of ten above \<open>v\<close>.
\<close>

definition digit_candidates :: "nat \<Rightarrow> nat \<Rightarrow> nat \<Rightarrow> (nat \<times> nat) list" where
  "digit_candidates v d k =
     (let e = d - k; lo = v div 10 ^ e
      in filter (\<lambda>(s, n). 10 ^ (k - 1) \<le> s \<and> s < 10 ^ k \<and> round_double (s * 10 ^ (n - k)) = v)
           [(lo, d), (lo + 1, d)]
         @ (if k = 1 \<and> round_double (10 ^ d) = v then [(1, Suc d)] else []))"

fun closest :: "nat \<Rightarrow> nat \<Rightarrow> (nat \<times> nat) list \<Rightarrow> (nat \<times> nat) \<Rightarrow> (nat \<times> nat)" where
  "closest v k [] best = best"
| "closest v k ((s, n) # rest) (s', n') =
     (let here = distance (s * 10 ^ (n - k)) v; there = distance (s' * 10 ^ (n' - k)) v
      in if here < there \<or> (here = there \<and> even s \<and> odd s')
         then closest v k rest (s, n) else closest v k rest (s', n'))"

text \<open>The fewest digits, searched from \<open>k\<close> digits upwards; \<open>d\<close> digits always do.\<close>

function find_digits :: "nat \<Rightarrow> nat \<Rightarrow> nat \<Rightarrow> nat \<times> nat \<times> nat" where
  "find_digits v d k =
     (if d \<le> k then (d, v, d)
      else (case digit_candidates v d k of
              [] \<Rightarrow> find_digits v d (Suc k)
            | c # cs \<Rightarrow> (k, closest v k cs c)))"
  by pat_completeness auto
termination
  by (relation "measure (\<lambda>(v, d, k). d - k)") auto

definition shortest_digits :: "nat \<Rightarrow> nat \<times> nat \<times> nat" where
  "shortest_digits v = find_digits v (decimal_length v) 1"

definition Number_toString :: "nat \<Rightarrow> string" where
  "Number_toString v =
     (if 2 ^ 1024 \<le> v then ''Infinity''
      else if v < 2 ^ 53 then show_nat v
      else (case shortest_digits v of
              (k, s, n) \<Rightarrow>
                if n \<le> 21 then show_nat s @ replicate (n - k) CHR ''0''
                else if k = 1 then show_nat s @ ''e+'' @ show_nat (n - 1)
                else take 1 (show_nat s) @ ''.'' @ drop 1 (show_nat s) @ ''e+'' @ show_nat (n - 1)))"

section \<open>Messages of the chat platform\<close>

record embed =
  emb_description :: "string maybe"  \<comment> \<open>\<^verbatim>\<open>embed.description\<close>: a string or \<^verbatim>\<open>null\<close>\<close>
  emb_image :: "string option"  \<comment> \<open>the URL of \<^verbatim>\<open>embed.image\<close>, when the embed has an image\<close>
  emb_video :: "string option"  \<comment> \<open>the URL of \<^verbatim>\<open>embed.video\<close>, when the embed has a video\<close>

text \<open>
  The components inside an action row: a button with its \<^verbatim>\<open>url\<close> (a string for a link
  button, \<^verbatim>\<open>null\<close> otherwise), or a component of another type.
\<close>

datatype component = Button "string maybe" | OtherComponent

datatype top_component = ActionRow "component list" | OtherTopLevel

record message =
  msg_id :: string
  msg_content :: string
  msg_author_bot :: bool
  msg_url :: string
  msg_embeds :: "embed list"
  msg_components :: "top_component list"
  msg_attachments :: "string list"  \<comment> \<open>the URLs of \<^verbatim>\<open>message.attachments\<close>, in their order\<close>

section \<open>Message classifier\<close>

text \<open>The star glyph U+2B50 and the prefix \<^verbatim>\<open>'\<star> **'\<close> that \<^verbatim>\<open>isStarboardMessage\<close> tests.\<close>

definition star_glyph :: string where
  "star_glyph = [CHR 0xE2, CHR 0xAD, CHR 0x90]"

definition star_prefix :: string where
  "star_prefix = star_glyph @ '' **''"

definition isStarboardMessage :: "message \<Rightarrow> bool" where
  "isStarboardMessage message =
     (startsWith (msg_content message) star_prefix \<and> msg_author_bot message)"

text \<open>
  \<^verbatim>\<open>starCountRegex\<close> is the star glyph, a space, \<^verbatim>\<open>**\<close>, one or more digits, \<^verbatim>\<open>**\<close>.
  \<open>starCountRegex_at s\<close> matches it at the start of \<open>s\<close> and returns the digits of the
  group; \<open>starCountRegex_match\<close> is \<^verbatim>\<open>content.match(starCountRegex)\<close>, the leftmost match.
\<close>

definition starCountRegex_at :: "string \<Rightarrow> string option" where
  "starCountRegex_at s =
     (if startsWith s star_prefix
      then (let rest = drop (length star_prefix) s;
                digits = takeWhile is_digit rest
            in if digits \<noteq> [] \<and> startsWith (dropWhile is_digit rest) ''**''
               then Some digits else None)
      else None)"

fun starCountRegex_match :: "string \<Rightarrow> string option" where
  "starCountRegex_match [] = starCountRegex_at []"
| "starCountRegex_match (c # cs) =
     (case starCountRegex_at (c # cs) of
        Some digits \<Rightarrow> Some digits
      | None \<Rightarrow> starCountRegex_match cs)"

text \<open>\<^verbatim>\<open>parseInt\<close> of a digit string is the double nearest to its value.\<close>

definition getStars :: "message \<Rightarrow> nat" where
  "getStars message =
     (case starCountRegex_match (msg_content message) of
        Some digits \<Rightarrow> round_double (nat_of_digits digits)
      | None \<Rightarrow> 0)"

definition blank_line :: string where
  "blank_line = [CHR 0x0A, CHR 0x0A]"

definition getTextContent :: "message \<Rightarrow> string option" where
  "getTextContent message =
     (let embedDescriptions = join blank_line (map emb_description (msg_embeds message))
      in if length embedDescriptions > 0 then Some embedDescriptions else None)"

section \<open>The external collaborators\<close>

record channel =
  chan_id :: string
  isTextBased :: bool

datatype error = TypeError | FetchError | WriteError

text \<open>
  Everything the program takes from outside: the configuration, the chat platform (channel
  and message fetches, the paginated history of the starboard channel, newest message first),
  the HTTP fetch of an attachment (\<^verbatim>\<open>fetch\<close> and the reading of the body taken together: the
  bytes, or a rejection), whether a file can be written, the identifiers
  that \<^verbatim>\<open>uuidV4()\<close> generates, and the arrival of the interrupt signal: \<open>sigint_at = Some k\<close>
  says that the signal arrives at the suspension point reached after \<open>k\<close> completed ones,
  \<open>None\<close> that it never arrives. A link with fewer than seven segments gives \<^verbatim>\<open>undefined\<close> as
  channel or message identifier; what the platform's client does with it (it rejects, or
  returns something that is no message, on which \<^verbatim>\<open>getAttachmentUrls\<close> throws inside the
  \<^verbatim>\<open>try\<close> block) is for the result a rejection.
\<close>

record world =
  outDir :: string
  downloadsDir :: string
  channels_fetch :: "string maybe \<Rightarrow> channel option awaited"
  messages_fetch :: "channel \<Rightarrow> string maybe \<Rightarrow> message awaited"
  history_fetch :: "string \<Rightarrow> message list awaited"
  http_fetch :: "string \<Rightarrow> string awaited"
  fs_write_ok :: "string \<Rightarrow> bool"
  uuidV4 :: "nat \<Rightarrow> string"
  sigint_at :: "nat option"

section \<open>Attachment resolver\<close>

definition permalink_prefix :: string where
  "permalink_prefix = ''https://discord.com/channels''"

definition is_cdn :: "string \<Rightarrow> bool" where
  "is_cdn url = (startsWith url ''https://cdn.discordapp.com'' \<or>
                 startsWith url ''https://media.discordapp.net'')"

text \<open>
  The buttons of an action row that have a string \<^verbatim>\<open>url\<close> satisfying \<open>P\<close>, mapped to that
  URL: the \<^verbatim>\<open>filter\<close> and \<^verbatim>\<open>map\<close> inside both \<^verbatim>\<open>flatMap\<close> callbacks. The URLs are strings,
  so the \<^verbatim>\<open>filter(url => url !== null)\<close> that follows keeps all of them.
\<close>

fun button_urls :: "(string \<Rightarrow> bool) \<Rightarrow> component list \<Rightarrow> string list" where
  "button_urls P [] = []"
| "button_urls P (Button (Val url) # cs) =
     (if P url then url # button_urls P cs else button_urls P cs)"
| "button_urls P (c # cs) = button_urls P cs"

fun row_button_urls :: "(string \<Rightarrow> bool) \<Rightarrow> top_component \<Rightarrow> string list" where
  "row_button_urls P (ActionRow cs) = button_urls P cs"
| "row_button_urls P OtherTopLevel = []"

definition flatMap :: "('a \<Rightarrow> 'b list) \<Rightarrow> 'a list \<Rightarrow> 'b list" where
  "flatMap f xs = concat (map f xs)"

text \<open>
  The callback of \<^verbatim>\<open>messageLinks.map\<close>: the message a permalink refers to, \<^verbatim>\<open>undefined\<close>
  when its channel is \<^verbatim>\<open>null\<close> or not text-based, a rejection when a fetch fails.
\<close>

definition fetch_linked :: "world \<Rightarrow> string \<Rightarrow> message maybe awaited" where
  "fetch_linked w link =
     (let splitLink = split CHR ''/'' link;
          channelId = index splitLink 5;
          messageId = index splitLink 6
      in case channels_fetch w channelId of
           Rejected \<Rightarrow> Rejected
         | Resolved None \<Rightarrow> Resolved Undefined
         | Resolved (Some channel) \<Rightarrow>
             (if isTextBased channel
              then (case messages_fetch w channel messageId of
                      Rejected \<Rightarrow> Rejected
                    | Resolved message \<Rightarrow> Resolved (Val message))
              else Resolved Undefined))"

text \<open>\<^verbatim>\<open>Promise.all\<close>: rejected as soon as one promise is.\<close>

fun promise_all :: "'a awaited list \<Rightarrow> 'a list awaited" where
  "promise_all [] = Resolved []"
| "promise_all (Rejected # ps) = Rejected"
| "promise_all (Resolved x # ps) =
     (case promise_all ps of Rejected \<Rightarrow> Rejected | Resolved xs \<Rightarrow> Resolved (x # xs))"

text \<open>
  \<^verbatim>\<open>Promise.all\<close> over calls that cannot reject but may not return (\<open>None\<close>): it returns
  when all of them have.
\<close>

fun all_returned :: "'a option list \<Rightarrow> 'a list option" where
  "all_returned [] = Some []"
| "all_returned (None # rs) = None"
| "all_returned (Some x # rs) =
     (case all_returned rs of None \<Rightarrow> None | Some xs \<Rightarrow> Some (x # xs))"

text \<open>\<^verbatim>\<open>xs.flat()\<close>: an array element is spliced in, any other element stays as it is.\<close>

fun flat1 :: "'a maybe list maybe \<Rightarrow> 'a maybe list" where
  "flat1 (Val xs) = xs"
| "flat1 Undefined = [Undefined]"
| "flat1 Null = [Null]"

definition flat :: "'a maybe list maybe list \<Rightarrow> 'a maybe list" where
  "flat xss = concat (map flat1 xss)"

text \<open>
  \<^verbatim>\<open>getAttachmentUrls\<close> and \<^verbatim>\<open>getAdvancedAttachments\<close> call each other through the messages
  that permalinks refer to, to no fixed depth. The argument \<open>n\<close> is fuel: the number of
  cross-reference hops that may still be followed; \<open>None\<close> says that it did not suffice.
  In \<^verbatim>\<open>getAdvancedAttachments\<close> a rejected fetch leaves the \<^verbatim>\<open>try\<close> block before
  \<^verbatim>\<open>attachments\<close> is assigned, so the initial empty array is returned. In
  \<^verbatim>\<open>getAttachmentUrls\<close>, \<^verbatim>\<open>embed.image?.url\<close> is \<^verbatim>\<open>undefined\<close> for an embed without an image and
  is filtered out, and likewise for the videos.
\<close>

fun getAttachmentUrls :: "world \<Rightarrow> nat \<Rightarrow> message \<Rightarrow> string maybe list option"
  and getAdvancedAttachments :: "world \<Rightarrow> nat \<Rightarrow> message \<Rightarrow> string maybe list option"
where
  "getAdvancedAttachments w n message =
     (let messageLinks =
            flatMap (row_button_urls (\<lambda>url. startsWith url permalink_prefix))
              (msg_components message)
      in case promise_all (map (fetch_linked w) messageLinks) of
           Rejected \<Rightarrow> Some []
         | Resolved messages \<Rightarrow>
             (case all_returned
                     (map (\<lambda>message.
                             case message of
                               Val m \<Rightarrow>
                                 (case n of
                                    0 \<Rightarrow> None
                                  | Suc k \<Rightarrow> map_option Val (getAttachmentUrls w k m))
                             | _ \<Rightarrow> Some Undefined)
                          messages) of
                None \<Rightarrow> None
              | Some results \<Rightarrow>
                  Some (flat (filter (\<lambda>attachments. attachments \<noteq> Null) results))))"
| "getAttachmentUrls w n message =
     (let attachments = msg_attachments message;
          embedImages = List.map_filter emb_image (msg_embeds message);
          embedVideos = List.map_filter emb_video (msg_embeds message);
          buttonLinks =
            flatMap (row_button_urls (\<lambda>url. \<not> startsWith url permalink_prefix))
              (msg_components message)
      in if length buttonLinks > 0 \<and> length (filter is_cdn buttonLinks) > 0
         then (case getAdvancedAttachments w n message of
                 None \<Rightarrow> None
               | Some advancedAttachments \<Rightarrow>
                   Some (map Val (attachments @ embedImages @ embedVideos
                                  @ filter (\<lambda>url. \<not> is_cdn url) buttonLinks)
                         @ advancedAttachments))
         else Some (map Val (attachments @ embedImages @ embedVideos @ buttonLinks)))"

section \<open>Archive record builder\<close>

record attachment =
  att_url :: string
  att_localFile :: string

record MessageArchive =
  rec_snowflake :: string
  rec_archiveId :: string
  rec_url :: string
  rec_stars :: nat
  rec_textContent :: "string option"
  rec_attachments :: "attachment list"

text \<open>\<^verbatim>\<open>attachment.split('.').pop()?.split('?')[0]\<close>\<close>

definition extension_of :: "string \<Rightarrow> string maybe" where
  "extension_of attachment =
     (case pop (split CHR ''.'' attachment) of
        Val s \<Rightarrow> index (split CHR ''?'' s) 0
      | _ \<Rightarrow> Undefined)"

definition strip_large :: "string \<Rightarrow> string" where
  "strip_large ext = (if endsWith ext '':large'' then take (length ext - 6) ext else ext)"

definition localFile_name :: "string \<Rightarrow> nat \<Rightarrow> nat \<Rightarrow> string \<Rightarrow> string" where
  "localFile_name archiveId stars attachmentNumber ext =
     archiveId @ ''_'' @ Number_toString stars @ ''-stars_'' @ Number_toString attachmentNumber
       @ ''.'' @ ext"

text \<open>
  The extension that the body of the loop of \<^verbatim>\<open>getAttachments\<close> derives for an attachment
  URL: \<open>None\<close> when the iteration is skipped (\<^verbatim>\<open>if (!ext) continue\<close>), otherwise the
  extension with a final \<^verbatim>\<open>:large\<close> sliced off.
\<close>

definition file_extension :: "string \<Rightarrow> string option" where
  "file_extension attachment =
     (case extension_of attachment of
        Val ext \<Rightarrow> if ext = [] then None else Some (strip_large ext)
      | _ \<Rightarrow> None)"

text \<open>
  The loop of \<^verbatim>\<open>getAttachments\<close>, with its two variables. An element that is not a string
  has no \<^verbatim>\<open>split\<close> method: the call throws a \<^verbatim>\<open>TypeError\<close>. The star count and the counter
  are doubles: \<^verbatim>\<open>attachmentNumber++\<close> is the double nearest to the sum.
\<close>

fun getAttachments_loop ::
  "string \<Rightarrow> nat \<Rightarrow> string maybe list \<Rightarrow> attachment list \<Rightarrow> nat \<Rightarrow> error + attachment list"
where
  "getAttachments_loop archiveId stars [] attachments attachmentNumber = Inr attachments"
| "getAttachments_loop archiveId stars (Val attachment # rest) attachments attachmentNumber =
     (case file_extension attachment of
        None \<Rightarrow> getAttachments_loop archiveId stars rest attachments attachmentNumber
      | Some ext \<Rightarrow>
          getAttachments_loop archiveId stars rest
            (attachments @
             [\<lparr>att_url = attachment,
               att_localFile = localFile_name archiveId stars attachmentNumber ext\<rparr>])
            (round_double (attachmentNumber + 1)))"
| "getAttachments_loop archiveId stars (_ # rest) attachments attachmentNumber = Inl TypeError"

definition getAttachments ::
  "world \<Rightarrow> nat \<Rightarrow> message \<Rightarrow> string \<Rightarrow> nat \<Rightarrow> (error + attachment list) option" where
  "getAttachments w n message archiveId stars =
     (case getAttachmentUrls w n message of
        None \<Rightarrow> None
      | Some attachmentUrls \<Rightarrow> Some (getAttachments_loop archiveId stars attachmentUrls [] 0))"

section \<open>Collection store and program state\<close>

text \<open>
  A JavaScript \<^verbatim>\<open>Map\<close> keeps its entries in insertion order; \<^verbatim>\<open>set\<close> on a present key
  replaces the value in place, on a new key it appends the entry.
\<close>

definition Map_has :: "('k \<times> 'v) list \<Rightarrow> 'k \<Rightarrow> bool" where
  "Map_has m k = (k \<in> set (map fst m))"

definition Map_set :: "('k \<times> 'v) list \<Rightarrow> 'k \<Rightarrow> 'v \<Rightarrow> ('k \<times> 'v) list" where
  "Map_set m k v = AList.update k v m"

definition Map_values :: "('k \<times> 'v) list \<Rightarrow> 'v list" where
  "Map_values m = map snd m"

datatype content = Text string | Bytes string | Json "MessageArchive list"

text \<open>
  The state of the process: the global \<^verbatim>\<open>messages\<close> map, the files written so far, how many
  identifiers \<^verbatim>\<open>uuidV4()\<close> has generated, and how many suspension points have been passed.
\<close>

record state =
  messages :: "(string \<times> MessageArchive) list"
  files :: "string \<rightharpoonup> content"
  uuids_used :: nat
  awaits :: nat

text \<open>
  How a stateful call ends: it returns, it throws (a rejected promise), or the interrupt
  signal arrives while it is suspended and its continuation never runs. Each carries the
  state reached.
\<close>

datatype 'a outcome = Returned 'a state | Threw error state | Interrupted state

fun then_do :: "'a outcome \<Rightarrow> ('a \<Rightarrow> state \<Rightarrow> 'b outcome) \<Rightarrow> 'b outcome" where
  "then_do (Returned x st) f = f x st"
| "then_do (Threw e st) f = Threw e st"
| "then_do (Interrupted st) f = Interrupted st"

fun state_of :: "'a outcome \<Rightarrow> state" where
  "state_of (Returned x st) = st"
| "state_of (Threw e st) = st"
| "state_of (Interrupted st) = st"

text \<open>
  \<open>await\<close> is a suspension point of the main flow, where the signal handler can run. An
  \<^verbatim>\<open>await\<close> of the source is \<open>awaiting\<close>: the suspension point, then the effect of the awaited
  operation.
\<close>

definition await :: "world \<Rightarrow> state \<Rightarrow> unit outcome" where
  "await w st =
     (if sigint_at w = Some (awaits st) then Interrupted st
      else Returned () (st\<lparr>awaits := awaits st + 1\<rparr>))"

definition awaiting :: "world \<Rightarrow> (state \<Rightarrow> 'a outcome) \<Rightarrow> state \<Rightarrow> 'a outcome" where
  "awaiting w operation st = then_do (await w st) (\<lambda>_. operation)"

definition writeFile :: "world \<Rightarrow> string \<Rightarrow> content \<Rightarrow> state \<Rightarrow> unit outcome" where
  "writeFile w path data st =
     (if fs_write_ok w path then Returned () (st\<lparr>files := (files st)(path \<mapsto> data)\<rparr>)
      else Threw WriteError st)"

definition fetch :: "world \<Rightarrow> string \<Rightarrow> state \<Rightarrow> string outcome" where
  "fetch w url st =
     (case http_fetch w url of
        Rejected \<Rightarrow> Threw FetchError st
      | Resolved response \<Rightarrow> Returned response st)"

definition download_path :: "world \<Rightarrow> string \<Rightarrow> string" where
  "download_path w name = outDir w @ ''/'' @ downloadsDir w @ ''/'' @ name"

definition textcontent_name :: "string \<Rightarrow> nat \<Rightarrow> string" where
  "textcontent_name archiveId stars =
     archiveId @ ''_'' @ Number_toString stars @ ''-stars_textcontent.txt''"

definition saveTextContent ::
  "world \<Rightarrow> string \<Rightarrow> string \<Rightarrow> nat \<Rightarrow> string option \<Rightarrow> state \<Rightarrow> unit outcome" where
  "saveTextContent w messageId archiveId stars textContent st =
     (case textContent of
        Some text \<Rightarrow>
          (if text \<noteq> []
           then awaiting w
                  (writeFile w (download_path w (textcontent_name archiveId stars)) (Text text)) st
           else Returned () st)
      | None \<Rightarrow> Returned () st)"

text \<open>
  The body of the loop of \<^verbatim>\<open>downloadAttachments\<close>, with its four \<^verbatim>\<open>await\<close>s: the fetch, the
  response's \<^verbatim>\<open>arrayBuffer()\<close>, the file write and the delay.
\<close>

definition download_one :: "world \<Rightarrow> attachment \<Rightarrow> state \<Rightarrow> unit outcome" where
  "download_one w attachment st =
     then_do (awaiting w (fetch w (att_url attachment)) st) (\<lambda>fileData st.
     then_do (await w st) (\<lambda>_ st.
     then_do (awaiting w
                (writeFile w (download_path w (att_localFile attachment)) (Bytes fileData)) st)
       (\<lambda>_ st. await w st)))"

fun downloadAttachments :: "world \<Rightarrow> string \<Rightarrow> attachment list \<Rightarrow> state \<Rightarrow> unit outcome" where
  "downloadAttachments w messageId [] st = Returned () st"
| "downloadAttachments w messageId (attachment # rest) st =
     (case download_one w attachment st of
        Returned _ st' \<Rightarrow> downloadAttachments w messageId rest st'
      | Threw e st' \<Rightarrow> Threw e st'
      | Interrupted st' \<Rightarrow> Interrupted st')"

text \<open>
  \<^verbatim>\<open>processMessage\<close>. The suspension points inside the attachment resolution change no
  state; the one \<open>await\<close> before \<open>getAttachments\<close> stands for all of them. \<open>None\<close> says that
  the fuel \<open>n\<close> of the resolution did not suffice.
\<close>

definition processMessage ::
  "world \<Rightarrow> nat \<Rightarrow> message \<Rightarrow> state \<Rightarrow> MessageArchive outcome option" where
  "processMessage w n message st =
     (let archiveId = uuidV4 w (uuids_used st);
          st = st\<lparr>uuids_used := uuids_used st + 1\<rparr>;
          stars = getStars message;
          textContent = getTextContent message
      in case then_do (saveTextContent w (msg_id message) archiveId stars textContent st)
                (\<lambda>_. await w) of
           Threw e st \<Rightarrow> Some (Threw e st)
         | Interrupted st \<Rightarrow> Some (Interrupted st)
         | Returned _ st \<Rightarrow>
             (case getAttachments w n message archiveId stars of
                None \<Rightarrow> None
              | Some (Inl e) \<Rightarrow> Some (Threw e st)
              | Some (Inr attachments) \<Rightarrow>
                  Some (then_do (downloadAttachments w (msg_id message) attachments st)
                          (\<lambda>_. Returned
                             \<lparr>rec_snowflake = msg_id message,
                              rec_archiveId = archiveId,
                              rec_url = msg_url message,
                              rec_stars = stars,
                              rec_textContent = textContent,
                              rec_attachments = attachments\<rparr>))))"

text \<open>The \<^verbatim>\<open>for\<close> loop over one fetched page, in the order of processing.\<close>

fun walk_page :: "world \<Rightarrow> nat \<Rightarrow> message list \<Rightarrow> state \<Rightarrow> unit outcome option" where
  "walk_page w n [] st = Some (Returned () st)"
| "walk_page w n (message # rest) st =
     (if \<not> isStarboardMessage message then walk_page w n rest st
      else if Map_has (messages st) (msg_id message) then walk_page w n rest st
      else (case processMessage w n message st of
              None \<Rightarrow> None
            | Some (Threw e st') \<Rightarrow> Some (Threw e st')
            | Some (Interrupted st') \<Rightarrow> Some (Interrupted st')
            | Some (Returned processed st') \<Rightarrow>
                walk_page w n rest
                  (st'\<lparr>messages := Map_set (messages st') (msg_id message) processed\<rparr>)))"

text \<open>
  The \<^verbatim>\<open>while (true)\<close> loop over the pages; \<open>pages\<close> is the number of iterations it may
  still make (\<open>None\<close>: more were needed). A page comes newest first and is reversed.
\<close>

fun walk :: "world \<Rightarrow> nat \<Rightarrow> nat \<Rightarrow> string \<Rightarrow> state \<Rightarrow> unit outcome option" where
  "walk w n 0 messageId st = None"
| "walk w n (Suc pages) messageId st =
     (case awaiting w (\<lambda>st. case history_fetch w messageId of
                              Rejected \<Rightarrow> Threw FetchError st
                            | Resolved fetchedMessages \<Rightarrow> Returned fetchedMessages st) st of
        Threw e st \<Rightarrow> Some (Threw e st)
      | Interrupted st \<Rightarrow> Some (Interrupted st)
      | Returned fetchedMessages st \<Rightarrow>
          (if length fetchedMessages = 0 then Some (Returned () st)
           else (case walk_page w n (rev fetchedMessages) st of
                   None \<Rightarrow> None
                 | Some (Threw e st) \<Rightarrow> Some (Threw e st)
                 | Some (Interrupted st) \<Rightarrow> Some (Interrupted st)
                 | Some (Returned _ st) \<Rightarrow>
                     (let lastKey = msg_id (last (rev fetchedMessages))
                      in if lastKey = [] then Some (Returned () st)
                         else walk w n pages lastKey st))))"

text \<open>
  \<^verbatim>\<open>Number(snowflake)\<close> for a string of decimal digits, which is what an identifier of the
  platform is. The comparator \<^verbatim>\<open>Number(a.snowflake) - Number(b.snowflake)\<close> is negative, zero
  (or \<^verbatim>\<open>NaN\<close>, which \<^verbatim>\<open>sort\<close> reads as zero) or positive as the first of these values is
  less than, equal to or greater than the second, and \<^verbatim>\<open>Array.prototype.sort\<close> is stable:
  the result is the stable sort by this key.
\<close>

definition Number :: "string \<Rightarrow> nat" where
  "Number s = min (round_double (nat_of_digits s)) (2 ^ 1024)"

definition sorted_collection :: "state \<Rightarrow> MessageArchive list" where
  "sorted_collection st = sort_key (\<lambda>a. Number (rec_snowflake a)) (Map_values (messages st))"

definition saveMessageCollection :: "world \<Rightarrow> state \<Rightarrow> unit outcome" where
  "saveMessageCollection w st =
     writeFile w (outDir w @ ''/metadata.json'') (Json (sorted_collection st)) st"

text \<open>The \<^verbatim>\<open>SIGINT\<close> handler, run in the state in which the signal arrives.\<close>

definition on_SIGINT :: "world \<Rightarrow> state \<Rightarrow> unit outcome" where
  "on_SIGINT w st = saveMessageCollection w st"

text \<open>Loading the records of a prior snapshot into the map.\<close>

definition load_collection :: "MessageArchive list \<Rightarrow> state \<Rightarrow> state" where
  "load_collection collection st =
     st\<lparr>messages :=
          foldl (\<lambda>m message. Map_set m (rec_snowflake message) message) (messages st) collection\<rparr>"

section \<open>Predicates on states\<close>

text \<open>
  \<open>grows st st'\<close>: from \<open>st\<close> to \<open>st'\<close> the collection is the same and no file has
  disappeared. \<open>completed w st r\<close>: every file that the record \<open>r\<close> names (one per
  attachment, and the text file when it has text) has been written in \<open>st\<close>.
  \<open>new_completed w n S M st\<close>: every entry of the collection that is not in \<open>S\<close> is keyed by
  its own \<open>sourceId\<close>, is completed, and is the record that \<^verbatim>\<open>processMessage\<close> returned for a
  starboard message of \<open>M\<close> with that identifier.
\<close>

definition grows :: "state \<Rightarrow> state \<Rightarrow> bool" where
  "grows st st' \<longleftrightarrow> messages st' = messages st \<and> dom (files st) \<subseteq> dom (files st')"

definition completed :: "world \<Rightarrow> state \<Rightarrow> MessageArchive \<Rightarrow> bool" where
  "completed w st r \<longleftrightarrow>
     (\<forall>a \<in> set (rec_attachments r). download_path w (att_localFile a) \<in> dom (files st)) \<and>
     (rec_textContent r \<noteq> None \<longrightarrow>
        download_path w (textcontent_name (rec_archiveId r) (rec_stars r)) \<in> dom (files st))"

definition new_completed ::
  "world \<Rightarrow> nat \<Rightarrow> (string \<times> MessageArchive) set \<Rightarrow> message set \<Rightarrow> state \<Rightarrow> bool" where
  "new_completed w n S M st \<longleftrightarrow>
     (\<forall>(k, r) \<in> set (messages st) - S.
        k = rec_snowflake r \<and> completed w st r \<and>
        (\<exists>m \<in> M. \<exists>s s'. isStarboardMessage m \<and> msg_id m = k \<and>
                        processMessage w n m s = Some (Returned r s')))"

text \<open>
  \<open>returned out\<close>: the call returned. \<open>stopped_like res out\<close>: the two calls stopped in the
  same way (the same error thrown, or both interrupted) and in the same state.
  \<open>in_progress w n m st out\<close>: \<open>m\<close> is a starboard message that the collection of \<open>st\<close> does
  not hold, and its processing from \<open>st\<close> stops as \<open>out\<close> does.
\<close>

fun returned :: "'a outcome \<Rightarrow> bool" where
  "returned (Returned x st) = True"
| "returned (Threw e st) = False"
| "returned (Interrupted st) = False"

fun stopped_like :: "'a outcome \<Rightarrow> 'b outcome \<Rightarrow> bool" where
  "stopped_like (Threw e st) (Threw e' st') = (e = e' \<and> st = st')"
| "stopped_like (Interrupted st) (Interrupted st') = (st = st')"
| "stopped_like _ _ = False"

definition in_progress :: "world \<Rightarrow> nat \<Rightarrow> message \<Rightarrow> state \<Rightarrow> unit outcome \<Rightarrow> bool" where
  "in_progress w n m st out \<longleftrightarrow>
     isStarboardMessage m \<and> \<not> Map_has (messages st) (msg_id m) \<and>
     (\<exists>res. processMessage w n m st = Some res \<and> stopped_like res out)"

section \<open>Example inputs\<close>

text \<open>
  A relay message on the starboard: a button with a content-delivery URL and a permalink to
  \<open>target_a\<close>, which has an attachment, a plain link button, a content-delivery button and
  a permalink of its own, to \<open>target_b\<close>.
\<close>

definition target_b :: message where
  "target_b = \<lparr>msg_id = ''201'', msg_content = ''the original clip'', msg_author_bot = False,
     msg_url = ''https://discord.com/channels/10/21/201'', msg_embeds = [],
     msg_components = [],
     msg_attachments = [''https://cdn.discordapp.com/attachments/21/201/b.png'']\<rparr>"

definition target_a :: message where
  "target_a = \<lparr>msg_id = ''200'', msg_content = ''see the clip'', msg_author_bot = False,
     msg_url = ''https://discord.com/channels/10/20/200'', msg_embeds = [],
     msg_components =
       [ActionRow [Button (Val ''https://example.com/source.gif''),
                   Button (Val ''https://media.discordapp.net/attachments/20/200/big.mp4''),
                   Button (Val ''https://discord.com/channels/10/21/201'')]],
     msg_attachments = [''https://cdn.discordapp.com/attachments/20/200/a.png'']\<rparr>"

definition relay_message :: message where
  "relay_message = \<lparr>msg_id = ''100'', msg_content = star_glyph @ '' **7** <#20>'',
     msg_author_bot = True,
     msg_url = ''https://discord.com/channels/10/11/100'', msg_embeds = [],
     msg_components =
       [ActionRow [Button (Val ''https://cdn.discordapp.com/attachments/11/100/big.mp4''),
                   Button (Val ''https://discord.com/channels/10/20/200'')]],
     msg_attachments = []\<rparr>"

text \<open>A relay message whose permalink leads to a channel that is not text-based.\<close>

definition relay_to_forum :: message where
  "relay_to_forum = \<lparr>msg_id = ''101'', msg_content = star_glyph @ '' **3** <#30>'',
     msg_author_bot = True,
     msg_url = ''https://discord.com/channels/10/11/101'', msg_embeds = [],
     msg_components =
       [ActionRow [Button (Val ''https://cdn.discordapp.com/attachments/11/101/big.mp4''),
                   Button (Val ''https://discord.com/channels/10/30/300'')]],
     msg_attachments = []\<rparr>"

text \<open>A relay message whose permalink leads to a channel that cannot be fetched.\<close>

definition relay_to_deleted :: message where
  "relay_to_deleted = \<lparr>msg_id = ''102'', msg_content = star_glyph @ '' **4** <#99>'',
     msg_author_bot = True,
     msg_url = ''https://discord.com/channels/10/11/102'',
     msg_embeds =
       [\<lparr>emb_description = Val ''gone'', emb_image = Some ''https://i.test/thumb.png'',
         emb_video = None\<rparr>],
     msg_components =
       [ActionRow [Button (Val ''https://discord.com/channels/10/99/900''),
                   Button (Val ''https://example.com/page.html''),
                   Button (Val ''https://cdn.discordapp.com/attachments/11/102/big.mp4'')]],
     msg_attachments = [''https://cdn.discordapp.com/attachments/11/102/small.png'']\<rparr>"

text \<open>Two starboard messages without buttons: one with text, one with an attachment.\<close>

definition starred_text :: message where
  "starred_text = \<lparr>msg_id = ''1001'', msg_content = star_glyph @ '' **7** <#20>'',
     msg_author_bot = True,
     msg_url = ''https://discord.com/channels/10/11/1001'',
     msg_embeds = [\<lparr>emb_description = Val ''hello'', emb_image = None, emb_video = None\<rparr>],
     msg_components = [], msg_attachments = []\<rparr>"

definition starred_image :: message where
  "starred_image = \<lparr>msg_id = ''1002'', msg_content = star_glyph @ '' **12** <#20>'',
     msg_author_bot = True,
     msg_url = ''https://discord.com/channels/10/11/1002'',
     msg_embeds = [],
     msg_components = [],
     msg_attachments = [''https://cdn.discordapp.com/attachments/11/1002/x.png?ex=1'']\<rparr>"

definition example_world :: world where
  "example_world =
     \<lparr>outDir = ''./output'', downloadsDir = ''downloads'',
      channels_fetch = (\<lambda>channelId.
        if channelId = Val ''20'' then Resolved (Some \<lparr>chan_id = ''20'', isTextBased = True\<rparr>)
        else if channelId = Val ''21'' then Resolved (Some \<lparr>chan_id = ''21'', isTextBased = True\<rparr>)
        else if channelId = Val ''30'' then Resolved (Some \<lparr>chan_id = ''30'', isTextBased = False\<rparr>)
        else Rejected),
      messages_fetch = (\<lambda>channel messageId.
        if messageId = Val ''200'' then Resolved target_a
        else if messageId = Val ''201'' then Resolved target_b
        else Rejected),
      history_fetch = (\<lambda>after. Resolved []),
      http_fetch = (\<lambda>url. Resolved ''bytes''),
      fs_write_ok = (\<lambda>path. True),
      uuidV4 = (\<lambda>k. ''uuid-'' @ show_nat k),
      sigint_at = None\<rparr>"

text \<open>The same platform, on which the message \<open>target_b\<close> cannot be fetched.\<close>

definition broken_world :: world where
  "broken_world =
     example_world
       \<lparr>messages_fetch := (\<lambda>channel messageId.
          if messageId = Val ''200'' then Resolved target_a else Rejected)\<rparr>"

definition initial_state :: state where
  "initial_state = \<lparr>messages = [], files = Map.empty, uuids_used = 0, awaits = 0\<rparr>"

definition archived_text :: MessageArchive where
  "archived_text = \<lparr>rec_snowflake = ''1001'', rec_archiveId = ''uuid-0'',
     rec_url = ''https://discord.com/channels/10/11/1001'', rec_stars = 7,
     rec_textContent = Some ''hello'', rec_attachments = []\<rparr>"

text \<open>Two records whose identifiers differ by one, above \<open>2 ^ 53\<close>.\<close>

definition record_a :: MessageArchive where
  "record_a = \<lparr>rec_snowflake = ''1234567890123456768'', rec_archiveId = ''uuid-1'',
     rec_url = ''https://discord.com/channels/10/11/1234567890123456768'', rec_stars = 5,
     rec_textContent = None, rec_attachments = []\<rparr>"

definition record_b :: MessageArchive where
  "record_b = \<lparr>rec_snowflake = ''1234567890123456769'', rec_archiveId = ''uuid-0'',
     rec_url = ''https://discord.com/channels/10/11/1234567890123456769'', rec_stars = 4,
     rec_textContent = None, rec_attachments = []\<rparr>"

text \<open>
  A run in which the interrupt signal arrives at the fifth suspension point, and the state
  in which the loop over the page \<open>[starred_text, starred_image]\<close> is then interrupted.
\<close>

definition interrupted_world :: world where
  "interrupted_world = example_world\<lparr>sigint_at := Some 4\<rparr>"

definition interrupted_state :: state where
  "interrupted_state =
     \<lparr>messages = [(''1001'', archived_text)],
      files = [''./output/downloads/uuid-0_7-stars_textcontent.txt'' \<mapsto> Text ''hello''],
      uuids_used = 2, awaits = 4\<rparr>"

text \<open>A relay message whose permalink leads back to itself.\<close>

definition looping_message :: message where
  "looping_message = \<lparr>msg_id = ''500'', msg_content = star_glyph @ '' **2** <#50>'',
     msg_author_bot = True,
     msg_url = ''https://discord.com/channels/10/50/500'', msg_embeds = [],
     msg_components =
       [ActionRow [Button (Val ''https://cdn.discordapp.com/attachments/50/500/big.mp4''),
                   Button (Val ''https://discord.com/channels/10/50/500'')]],
     msg_attachments = []\<rparr>"

definition looping_world :: world where
  "looping_world =
     example_world
       \<lparr>channels_fetch := (\<lambda>channelId. Resolved (Some \<lparr>chan_id = ''50'', isTextBased = True\<rparr>)),
        messages_fetch := (\<lambda>channel messageId. Resolved looping_message)\<rparr>"

section \<open>Properties of the numbers\<close>

lemma bitlen_le_iff: "bitlen n \<le> k \<longleftrightarrow> n < 2 ^ k"
proof (induction k arbitrary: n)
  case 0
  show ?case by (cases "n = 0") simp_all
next
  case (Suc k)
  show ?case
  proof (cases "n = 0")
    case True
    then show ?thesis by simp
  next
    case False
    then have "bitlen n \<le> Suc k \<longleftrightarrow> bitlen (n div 2) \<le> k"
      by (subst bitlen.simps) simp
    also have "\<dots> \<longleftrightarrow> n div 2 < 2 ^ k" by (rule Suc.IH)
    also have "\<dots> \<longleftrightarrow> n < 2 ^ Suc k" by auto
    finally show ?thesis .
  qed
qed

lemma round_double_exact: "n < 2 ^ 53 \<Longrightarrow> round_double n = n"
  using bitlen_le_iff [of n 53] by (simp add: round_double_def)

lemma Number_toString_exact: "v < 2 ^ 53 \<Longrightarrow> Number_toString v = show_nat v"
proof -
  assume "v < 2 ^ 53"
  moreover have "(2::nat) ^ 53 < 2 ^ 1024" by (rule power_strict_increasing) simp_all
  ultimately show ?thesis by (simp add: Number_toString_def)
qed

text \<open>From \<open>2 ^ 53\<close> on the digits are the shortest that give the double back.\<close>

lemma Number_toString_2_64: "Number_toString 18446744073709551616 = ''18446744073709552000''"
  by (simp add: Number_toString_def shortest_digits_def digit_candidates_def round_double_def
      distance_def digit_char_def Let_def)

lemma Number_toString_1e21: "Number_toString 1000000000000000000000 = ''1e+21''"
  by (simp add: Number_toString_def shortest_digits_def digit_candidates_def round_double_def
      distance_def digit_char_def Let_def)

section \<open>Properties of the classifier\<close>

lemma join_empty_iff:
  "sep \<noteq> [] \<Longrightarrow> join sep xs = [] \<longleftrightarrow> xs = [] \<or> (\<exists>x. xs = [x] \<and> to_joined x = [])"
  by (induction sep xs rule: join.induct) auto

text \<open>
  C1 (as amended). \<^verbatim>\<open>isStarboardMessage\<close> is true exactly when the body begins with the star
  glyph, a space and \<^verbatim>\<open>**\<close>, and the author is a bot. A bot's message that begins with the
  whole bold-integer pattern is therefore archivable, but neither the digits nor the closing
  \<^verbatim>\<open>**\<close> are required.
\<close>

theorem isStarboardMessage_iff:
  "(isStarboardMessage m \<longleftrightarrow>
      (\<exists>rest. msg_content m = star_glyph @ '' **'' @ rest) \<and> msg_author_bot m) \<and>
   (starCountRegex_at (msg_content m) \<noteq> None \<and> msg_author_bot m \<longrightarrow> isStarboardMessage m)"
  by (auto simp: isStarboardMessage_def startsWith_def star_prefix_def prefix_def
      starCountRegex_at_def split: if_splits)

theorem isStarboardMessage_iff_witness:
  "starCountRegex_at (star_glyph @ '' **7** #general'') \<noteq> None \<and>
   isStarboardMessage \<lparr>msg_id = ''1'', msg_content = star_glyph @ '' **7** #general'',
     msg_author_bot = True, msg_url = ''u'', msg_embeds = [], msg_components = [],
     msg_attachments = []\<rparr>"
  using isStarboardMessage_iff [of "\<lparr>msg_id = ''1'',
     msg_content = star_glyph @ '' **7** #general'',
     msg_author_bot = True, msg_url = ''u'', msg_embeds = [], msg_components = [],
     msg_attachments = []\<rparr>"]
  by (simp add: starCountRegex_at_def startsWith_def star_prefix_def star_glyph_def is_digit_def)

text \<open>
  C1 as stated fails: a bot's message whose body is the star glyph followed by \<^verbatim>\<open> **hello\<close>
  is archivable, although no bold integer follows the glyph.
\<close>

theorem isStarboardMessage_counterexample:
  "isStarboardMessage \<lparr>msg_id = ''1'', msg_content = star_glyph @ '' **hello'',
     msg_author_bot = True, msg_url = ''u'', msg_embeds = [], msg_components = [],
     msg_attachments = []\<rparr> \<and>
   starCountRegex_at (star_glyph @ '' **hello'') = None"
  by (simp add: isStarboardMessage_def starCountRegex_at_def startsWith_def star_prefix_def
      star_glyph_def is_digit_def)

text \<open>
  C7 (as amended). \<^verbatim>\<open>getTextContent\<close> is the embeds' descriptions (a missing one counting as
  the empty string) joined by a blank line when that string is not empty, and absent when
  it is empty; it is empty exactly when the message has no embed, or a single embed whose
  description is missing or empty.
\<close>

theorem getTextContent_joined:
  "getTextContent m =
     (if join blank_line (map emb_description (msg_embeds m)) = [] then None
      else Some (join blank_line (map emb_description (msg_embeds m)))) \<and>
   (getTextContent m = None \<longleftrightarrow>
      msg_embeds m = [] \<or> (\<exists>e. msg_embeds m = [e] \<and> to_joined (emb_description e) = []))"
proof -
  have sep: "blank_line \<noteq> []" by (simp add: blank_line_def)
  show ?thesis
    using join_empty_iff [OF sep, of "map emb_description (msg_embeds m)"]
    by (auto simp: getTextContent_def Let_def)
qed

theorem getTextContent_joined_witness:
  "getTextContent \<lparr>msg_id = ''1'', msg_content = [], msg_author_bot = True, msg_url = ''u'',
     msg_embeds = [\<lparr>emb_description = Null, emb_image = None, emb_video = None\<rparr>],
     msg_components = [], msg_attachments = []\<rparr> = None"
  using getTextContent_joined [of "\<lparr>msg_id = ''1'', msg_content = [], msg_author_bot = True,
     msg_url = ''u'',
     msg_embeds = [\<lparr>emb_description = Null, emb_image = None, emb_video = None\<rparr>],
     msg_components = [], msg_attachments = []\<rparr>"]
  by simp

text \<open>
  C7 as stated fails: with two embeds that both lack a description the text content is
  present, the separator alone.
\<close>

theorem getTextContent_counterexample:
  "getTextContent \<lparr>msg_id = ''1'', msg_content = [], msg_author_bot = True, msg_url = ''u'',
     msg_embeds =
       [\<lparr>emb_description = Null, emb_image = Some ''https://i.test/a.png'', emb_video = None\<rparr>,
        \<lparr>emb_description = Null, emb_image = Some ''https://i.test/b.png'', emb_video = None\<rparr>],
     msg_components = [], msg_attachments = []\<rparr> = Some [CHR 0x0A, CHR 0x0A]"
  by (simp add: getTextContent_def blank_line_def)

section \<open>Properties of the attachment resolver\<close>

declare getAttachmentUrls.simps [simp del] getAdvancedAttachments.simps [simp del]

lemmas resolver_simps = getAttachmentUrls.simps getAdvancedAttachments.simps

lemmas js_defs = startsWith_def endsWith_def index_def pop_def flatMap_def flat_def
  permalink_prefix_def is_cdn_def fetch_linked_def

lemma button_urls_filter: "button_urls P cs = filter P (button_urls (\<lambda>_. True) cs)"
  by (induction P cs rule: button_urls.induct) auto

lemma row_button_urls_filter: "row_button_urls P c = filter P (row_button_urls (\<lambda>_. True) c)"
  by (cases c) (simp_all add: button_urls_filter [of P])

lemma flatMap_button_urls_filter:
  "flatMap (row_button_urls P) cs = filter P (flatMap (row_button_urls (\<lambda>_. True)) cs)"
  by (induction cs) (simp_all add: flatMap_def row_button_urls_filter [of P])

lemma filter_not_id: "filter P xs = [] \<Longrightarrow> filter (\<lambda>x. \<not> P x) xs = xs"
  by (induction xs) (auto split: if_splits)

lemma cdn_not_permalink: "is_cdn url \<Longrightarrow> \<not> startsWith url permalink_prefix"
  by (auto simp: is_cdn_def startsWith_def permalink_prefix_def prefix_def)

text \<open>
  The link buttons that \<^verbatim>\<open>getAttachmentUrls\<close> keeps in \<^verbatim>\<open>buttonLinks\<close>, whether or not it
  runs its second filter: the buttons that are neither content-delivery URLs nor permalinks.
\<close>

lemma simple_link_buttons:
  "filter (\<lambda>url. \<not> is_cdn url)
     (flatMap (row_button_urls (\<lambda>url. \<not> startsWith url permalink_prefix)) cs) =
   filter (\<lambda>url. \<not> is_cdn url \<and> \<not> startsWith url permalink_prefix)
     (flatMap (row_button_urls (\<lambda>_. True)) cs)"
  by (simp add: flatMap_button_urls_filter [of "\<lambda>url. \<not> startsWith url permalink_prefix"]
      conj_commute)

lemma cdn_button_present:
  "filter is_cdn (flatMap (row_button_urls (\<lambda>url. \<not> startsWith url permalink_prefix)) cs) = []
   \<longleftrightarrow> \<not> (\<exists>url \<in> set (flatMap (row_button_urls (\<lambda>_. True)) cs). is_cdn url)"
  using cdn_not_permalink
  by (auto simp: flatMap_button_urls_filter [of "\<lambda>url. \<not> startsWith url permalink_prefix"]
      filter_empty_conv)

lemma promise_all_Rejected: "promise_all ps = Rejected \<longleftrightarrow> Rejected \<in> set ps"
  by (induction ps rule: promise_all.induct) (auto split: awaited.splits)

lemma promise_all_Resolved: "promise_all (map Resolved xs) = Resolved xs"
  by (induction xs) auto

lemma all_returned_Some: "all_returned (map Some xs) = Some xs"
  by (induction xs) auto

lemma flat_Val: "flat (map Val xss) = concat xss"
  by (induction xss) (simp_all add: flat_def)

text \<open>What \<^verbatim>\<open>getAttachmentUrls\<close> returns, with its two filters of the buttons merged.\<close>

lemma resolved_sequence:
  "getAttachmentUrls w n m =
     map_option
       (\<lambda>advanced.
          map Val (msg_attachments m)
          @ map Val (List.map_filter emb_image (msg_embeds m))
          @ map Val (List.map_filter emb_video (msg_embeds m))
          @ map Val (filter (\<lambda>url. \<not> is_cdn url \<and> \<not> startsWith url permalink_prefix)
                       (flatMap (row_button_urls (\<lambda>_. True)) (msg_components m)))
          @ advanced)
       (if \<exists>url \<in> set (flatMap (row_button_urls (\<lambda>_. True)) (msg_components m)). is_cdn url
        then getAdvancedAttachments w n m else Some [])"
proof -
  let ?all = "flatMap (row_button_urls (\<lambda>_. True)) (msg_components m)"
  let ?links = "flatMap (row_button_urls (\<lambda>url. \<not> startsWith url permalink_prefix))
                  (msg_components m)"
  note tier4 = simple_link_buttons [of "msg_components m"]
  show ?thesis
  proof (cases "\<exists>url \<in> set ?all. is_cdn url")
    case True
    then have "filter is_cdn ?links \<noteq> []"
      using cdn_button_present [of "msg_components m"] by blast
    moreover from this have "?links \<noteq> []" by auto
    ultimately show ?thesis
      using True tier4
      by (simp add: getAttachmentUrls.simps [of w n m] Let_def map_option_case
          split: option.splits)
  next
    case False
    then have none: "filter is_cdn ?links = []"
      using cdn_button_present [of "msg_components m"] by blast
    from filter_not_id [OF none] tier4 have
      "?links = filter (\<lambda>url. \<not> is_cdn url \<and> \<not> startsWith url permalink_prefix) ?all"
      by simp
    with False none show ?thesis
      by (simp add: getAttachmentUrls.simps [of w n m] Let_def)
  qed
qed

text \<open>
  C3. The resolved sequence is: the direct attachments, the embed images, the embed videos,
  the link buttons that are neither content-delivery URLs nor permalinks, each in the order
  of the message, and then the second-tier attachments, which are resolved exactly when some
  button has a content-delivery URL. (Where the second tier does not return, nothing is
  resolved.)
\<close>

theorem getAttachmentUrls_tier_order:
  "getAttachmentUrls w n m =
     map_option
       (\<lambda>advanced.
          map Val (msg_attachments m)
          @ map Val (List.map_filter emb_image (msg_embeds m))
          @ map Val (List.map_filter emb_video (msg_embeds m))
          @ map Val (filter (\<lambda>url. \<not> is_cdn url \<and> \<not> startsWith url permalink_prefix)
                       (flatMap (row_button_urls (\<lambda>_. True)) (msg_components m)))
          @ advanced)
       (if \<exists>url \<in> set (flatMap (row_button_urls (\<lambda>_. True)) (msg_components m)). is_cdn url
        then getAdvancedAttachments w n m else Some [])"
  by (rule resolved_sequence)

theorem getAttachmentUrls_tier_order_witness:
  "getAttachmentUrls example_world 0 relay_to_deleted =
     Some [Val ''https://cdn.discordapp.com/attachments/11/102/small.png'',
           Val ''https://i.test/thumb.png'',
           Val ''https://example.com/page.html'']"
proof -
  have "getAdvancedAttachments example_world 0 relay_to_deleted = Some []"
    by (simp add: resolver_simps relay_to_deleted_def example_world_def js_defs)
  with getAttachmentUrls_tier_order [of example_world 0 relay_to_deleted]
  show ?thesis
    by (simp add: relay_to_deleted_def js_defs List.map_filter_simps)
qed

text \<open>
  C8 (as amended). When the fetch of a message that one of the message's own permalink
  buttons refers to (of its channel or of the message) is rejected, the second tier of the
  message is empty and the message resolves to its tiers 1 to 4.
\<close>

theorem failed_cross_reference_degrades:
  assumes "link \<in> set (flatMap (row_button_urls (\<lambda>url. startsWith url permalink_prefix))
                         (msg_components m))"
      and "fetch_linked w link = Rejected"
  shows "getAdvancedAttachments w n m = Some [] \<and>
         getAttachmentUrls w n m =
           Some (map Val
                   (msg_attachments m
                    @ List.map_filter emb_image (msg_embeds m)
                    @ List.map_filter emb_video (msg_embeds m)
                    @ filter (\<lambda>url. \<not> is_cdn url \<and> \<not> startsWith url permalink_prefix)
                        (flatMap (row_button_urls (\<lambda>_. True)) (msg_components m))))"
proof -
  let ?links = "flatMap (row_button_urls (\<lambda>url. startsWith url permalink_prefix))
                  (msg_components m)"
  let ?buttons = "flatMap (row_button_urls (\<lambda>url. \<not> startsWith url permalink_prefix))
                    (msg_components m)"
  have "Rejected \<in> set (map (fetch_linked w) ?links)"
    using assms by force
  then have "promise_all (map (fetch_linked w) ?links) = Rejected"
    by (simp only: promise_all_Rejected)
  then have adv: "getAdvancedAttachments w n m = Some []"
    by (simp add: getAdvancedAttachments.simps [of w n m])
  have "getAttachmentUrls w n m =
          Some (map Val (msg_attachments m
                   @ List.map_filter emb_image (msg_embeds m)
                   @ List.map_filter emb_video (msg_embeds m)
                   @ filter (\<lambda>url. \<not> is_cdn url) ?buttons))"
  proof (cases "filter is_cdn ?buttons = []")
    case True
    with filter_not_id [OF True] show ?thesis
      by (simp add: getAttachmentUrls.simps [of w n m] Let_def)
  next
    case False
    moreover from this have "?buttons \<noteq> []" by auto
    ultimately show ?thesis
      using adv by (simp add: getAttachmentUrls.simps [of w n m] Let_def)
  qed
  with adv show ?thesis
    by (simp add: simple_link_buttons)
qed

theorem failed_cross_reference_degrades_witness:
  "fetch_linked example_world ''https://discord.com/channels/10/99/900'' = Rejected \<and>
   getAdvancedAttachments example_world 0 relay_to_deleted = Some [] \<and>
   getAttachmentUrls example_world 0 relay_to_deleted =
     Some [Val ''https://cdn.discordapp.com/attachments/11/102/small.png'',
           Val ''https://i.test/thumb.png'',
           Val ''https://example.com/page.html'']"
proof -
  have link: "''https://discord.com/channels/10/99/900'' \<in>
      set (flatMap (row_button_urls (\<lambda>url. startsWith url permalink_prefix))
             (msg_components relay_to_deleted))"
    by (simp add: relay_to_deleted_def js_defs)
  have rejected: "fetch_linked example_world ''https://discord.com/channels/10/99/900'' = Rejected"
    by (simp add: example_world_def js_defs)
  from failed_cross_reference_degrades [OF link rejected, of 0] rejected
  show ?thesis
    by (simp add: relay_to_deleted_def js_defs List.map_filter_simps)
qed

text \<open>
  C8 as stated fails. On \<open>broken_world\<close> the relay message leads to \<open>target_a\<close>, whose own
  permalink leads to a message that cannot be fetched: a fetch fails during the second-tier
  resolution of the relay message, and only the second tier of \<open>target_a\<close> is emptied. The
  second tier of the relay message holds the tiers 1 to 4 of \<open>target_a\<close>.
\<close>

theorem failed_cross_reference_counterexample:
  "fetch_linked broken_world ''https://discord.com/channels/10/20/200'' = Resolved (Val target_a) \<and>
   fetch_linked broken_world ''https://discord.com/channels/10/21/201'' = Rejected \<and>
   getAdvancedAttachments broken_world 0 target_a = Some [] \<and>
   getAdvancedAttachments broken_world (Suc 0) relay_message =
     Some [Val ''https://cdn.discordapp.com/attachments/20/200/a.png'',
           Val ''https://example.com/source.gif'']"
  by (simp add: resolver_simps relay_message_def target_a_def broken_world_def example_world_def
      js_defs List.map_filter_simps)

text \<open>
  C10, at a failing input. The permalink of \<open>relay_to_forum\<close> leads to a channel that is
  not text-based: the callback returns \<^verbatim>\<open>undefined\<close>, the filter \<^verbatim>\<open>!== null\<close> keeps it, and
  \<^verbatim>\<open>flat()\<close> leaves it in the result. \<^verbatim>\<open>getAttachments\<close> then calls \<^verbatim>\<open>split\<close> on it and throws.
\<close>

theorem undefined_in_second_tier:
  "getAdvancedAttachments example_world 0 relay_to_forum = Some [Undefined] \<and>
   getAttachmentUrls example_world 0 relay_to_forum = Some [Undefined] \<and>
   getAttachments example_world 0 relay_to_forum ''uuid-0'' 3 = Some (Inl TypeError)"
  by (simp add: resolver_simps getAttachments_def relay_to_forum_def example_world_def js_defs)

text \<open>
  C2 (as amended). When every permalink button leads to a message, the second tier is the
  concatenation, in the order of the buttons, of what \<^verbatim>\<open>getAttachmentUrls\<close> itself resolves
  for each referenced message: its tiers 1 to 4 and, where it has a content-delivery button
  of its own, its own second tier. The depth is not bounded.
\<close>

theorem second_tier_appends_full_resolution:
  assumes cdn: "\<exists>url \<in> set (flatMap (row_button_urls (\<lambda>_. True)) (msg_components m)). is_cdn url"
    and fetched:
      "map (fetch_linked w)
         (flatMap (row_button_urls (\<lambda>url. startsWith url permalink_prefix)) (msg_components m)) =
       map (\<lambda>r. Resolved (Val r)) rs"
    and resolved: "map (getAttachmentUrls w n) rs = map Some urls"
  shows "getAdvancedAttachments w (Suc n) m = Some (concat urls) \<and>
         getAttachmentUrls w (Suc n) m =
           Some (map Val (msg_attachments m)
                 @ map Val (List.map_filter emb_image (msg_embeds m))
                 @ map Val (List.map_filter emb_video (msg_embeds m))
                 @ map Val (filter (\<lambda>url. \<not> is_cdn url \<and> \<not> startsWith url permalink_prefix)
                              (flatMap (row_button_urls (\<lambda>_. True)) (msg_components m)))
                 @ concat urls)"
proof -
  have "promise_all (map (fetch_linked w)
          (flatMap (row_button_urls (\<lambda>url. startsWith url permalink_prefix)) (msg_components m))) =
        Resolved (map Val rs)"
    using promise_all_Resolved [of "map Val rs"] by (simp add: fetched comp_def)
  moreover have "map (\<lambda>message. case message of
                         Val m \<Rightarrow> map_option Val (getAttachmentUrls w n m)
                       | _ \<Rightarrow> Some Undefined) (map Val rs) =
                 map Some (map Val urls)"
    using arg_cong [OF resolved, of "map (map_option Val)"] by (simp add: comp_def)
  moreover have "filter (\<lambda>attachments. attachments \<noteq> Null) (map Val urls) = map Val urls"
    by (induction urls) auto
  ultimately have adv: "getAdvancedAttachments w (Suc n) m = Some (concat urls)"
    by (simp add: getAdvancedAttachments.simps [of w "Suc n" m] all_returned_Some flat_Val
        del: map_map)
  with cdn resolved_sequence [of w "Suc n" m] show ?thesis
    by simp
qed

theorem second_tier_appends_full_resolution_witness:
  "getAdvancedAttachments example_world (Suc (Suc 0)) relay_message =
     Some [Val ''https://cdn.discordapp.com/attachments/20/200/a.png'',
           Val ''https://example.com/source.gif'',
           Val ''https://cdn.discordapp.com/attachments/21/201/b.png''] \<and>
   getAttachmentUrls example_world (Suc (Suc 0)) relay_message =
     Some [Val ''https://cdn.discordapp.com/attachments/20/200/a.png'',
           Val ''https://example.com/source.gif'',
           Val ''https://cdn.discordapp.com/attachments/21/201/b.png'']"
proof -
  have cdn: "\<exists>url \<in> set (flatMap (row_button_urls (\<lambda>_. True)) (msg_components relay_message)).
      is_cdn url"
    by (simp add: relay_message_def js_defs)
  have fetched: "map (fetch_linked example_world)
         (flatMap (row_button_urls (\<lambda>url. startsWith url permalink_prefix))
            (msg_components relay_message)) =
       map (\<lambda>r. Resolved (Val r)) [target_a]"
    by (simp add: relay_message_def example_world_def js_defs)
  have resolved: "map (getAttachmentUrls example_world (Suc 0)) [target_a] =
      map Some [[Val ''https://cdn.discordapp.com/attachments/20/200/a.png'',
           Val ''https://example.com/source.gif'',
           Val ''https://cdn.discordapp.com/attachments/21/201/b.png'']]"
    by (simp add: resolver_simps target_a_def target_b_def example_world_def js_defs)
  from second_tier_appends_full_resolution [OF cdn fetched resolved] show ?thesis
    by (simp add: relay_message_def js_defs List.map_filter_simps)
qed

text \<open>
  C2 as stated fails. The tiers 1 to 3 of the referenced message \<open>target_a\<close> are its one
  attachment; the relay message resolves to that, to \<open>target_a\<close>'s plain link button
  (its tier 4) and to the attachment of \<open>target_b\<close>, which is two hops away.
\<close>

theorem second_tier_counterexample:
  "msg_attachments target_a = [''https://cdn.discordapp.com/attachments/20/200/a.png''] \<and>
   List.map_filter emb_image (msg_embeds target_a) = [] \<and>
   List.map_filter emb_video (msg_embeds target_a) = [] \<and>
   getAttachmentUrls example_world (Suc (Suc 0)) relay_message =
     Some [Val ''https://cdn.discordapp.com/attachments/20/200/a.png'',
           Val ''https://example.com/source.gif'',
           Val ''https://cdn.discordapp.com/attachments/21/201/b.png'']"
  by (simp add: resolver_simps relay_message_def target_a_def target_b_def example_world_def
      js_defs List.map_filter_simps)

text \<open>
  The recursion need not end: a message whose permalink leads back to itself is not
  resolved with any fuel.
\<close>

lemma self_reference_never_resolves:
  "getAttachmentUrls looping_world n looping_message = None"
proof (induction n)
  case 0
  show ?case
    by (simp add: resolver_simps looping_message_def looping_world_def example_world_def js_defs)
next
  case (Suc n)
  have "getAdvancedAttachments looping_world (Suc n) looping_message = None"
    using Suc
    by (simp add: getAdvancedAttachments.simps [of _ _ looping_message])
       (simp add: looping_message_def looping_world_def example_world_def js_defs)
  then show ?case
    by (simp add: getAttachmentUrls.simps [of _ _ looping_message])
       (simp add: looping_message_def js_defs)
qed

section \<open>Properties of the record builder\<close>

lemma split_nonempty: "split sep s \<noteq> []"
  by (induction sep s rule: split.induct) (auto split: list.splits)

lemma hd_split: "hd (split sep s) = takeWhile (\<lambda>c. c \<noteq> sep) s"
  by (induction sep s rule: split.induct) (auto simp: split_nonempty split: list.splits)

lemma extension_of_eq:
  "extension_of url = Val (takeWhile (\<lambda>c. c \<noteq> CHR ''?'') (last (split CHR ''.'' url)))"
proof -
  have "index (split CHR ''?'' s) 0 = Val (takeWhile (\<lambda>c. c \<noteq> CHR ''?'') s)" for s
    using split_nonempty [of "CHR ''?''" s] hd_split [of "CHR ''?''" s]
    by (cases "split CHR ''?'' s") (simp_all add: index_def)
  then show ?thesis
    using split_nonempty [of "CHR ''.''" url]
    by (cases "split CHR ''.'' url") (simp_all add: extension_of_def pop_def)
qed

lemma file_extension_eq:
  "file_extension url =
     (if takeWhile (\<lambda>c. c \<noteq> CHR ''?'') (last (split CHR ''.'' url)) = [] then None
      else Some (strip_large (takeWhile (\<lambda>c. c \<noteq> CHR ''?'') (last (split CHR ''.'' url)))))"
  by (simp add: file_extension_def extension_of_eq)

text \<open>
  What the loop does on a list of URL strings: a URL is dropped exactly when
  \<open>file_extension\<close> is \<open>None\<close>, and the kept URLs are numbered from the counter on, in
  their order, skipped URLs consuming no number.
\<close>

lemma getAttachments_loop_general:
  assumes "k + length urls < 2 ^ 53"
  shows "getAttachments_loop archiveId stars (map Val urls) acc k =
     Inr (acc @ map (\<lambda>(i, url, ext).
                       \<lparr>att_url = url,
                        att_localFile =
                          archiveId @ ''_'' @ Number_toString stars @ ''-stars_'' @ show_nat i
                            @ ''.'' @ ext\<rparr>)
                 (enumerate k
                    (List.map_filter (\<lambda>url. map_option (Pair url) (file_extension url)) urls)))"
  using assms
proof (induction urls arbitrary: acc k)
  case Nil
  then show ?case by (simp add: List.map_filter_simps)
next
  case (Cons url urls)
  show ?case
  proof (cases "file_extension url")
    case None
    with Cons.prems Cons.IH [of k acc] show ?thesis
      by (simp add: List.map_filter_simps)
  next
    case (Some ext)
    from Cons.prems have k: "k < 2 ^ 53" and k1: "Suc k < 2 ^ 53"
      and rest: "Suc k + length urls < 2 ^ 53" by simp_all
    from k1 have "round_double (Suc k) = Suc k" by (rule round_double_exact)
    with Some Cons.IH [OF rest] Number_toString_exact [OF k] show ?thesis
      by (simp add: List.map_filter_simps localFile_name_def)
  qed
qed

text \<open>
  C4, at a failing input. The loop means to skip a URL without an extension
  (\<^verbatim>\<open>if (!ext) continue\<close>), but it takes the extension from the last \<^verbatim>\<open>.\<close> of the whole URL
  and tests it before the suffix \<^verbatim>\<open>:large\<close> is sliced off. A URL that ends in \<^verbatim>\<open>.:large\<close> is
  kept with an empty extension, and a URL whose path has no extension is kept with what
  follows the last \<^verbatim>\<open>.\<close> of its host name; both consume an index.
\<close>

theorem extensionless_urls_are_kept:
  "file_extension ''https://pbs.twimg.com/media/i.:large'' = Some [] \<and>
   file_extension ''https://www.youtube.com/watch?v=abc'' = Some ''com/watch'' \<and>
   getAttachments_loop ''uuid-0'' 5
     [Val ''https://pbs.twimg.com/media/i.:large'',
      Val ''https://www.youtube.com/watch?v=abc''] [] 0 =
   Inr [\<lparr>att_url = ''https://pbs.twimg.com/media/i.:large'',
          att_localFile = ''uuid-0_5-stars_0.''\<rparr>,
        \<lparr>att_url = ''https://www.youtube.com/watch?v=abc'',
          att_localFile = ''uuid-0_5-stars_1.com/watch''\<rparr>]"
  by (simp add: file_extension_def extension_of_def pop_def index_def strip_large_def
      endsWith_def suffix_to_prefix localFile_name_def Number_toString_def round_double_def
      digit_char_def)

section \<open>Properties of the collection store\<close>

lemma set_sorted_collection: "set (sorted_collection st) = snd ` set (messages st)"
  by (simp add: sorted_collection_def Map_values_def)

lemma length_sorted_collection: "length (sorted_collection st) = length (messages st)"
  by (simp add: sorted_collection_def Map_values_def)

lemma sorted_sorted_collection:
  "sorted (map (\<lambda>a. Number (rec_snowflake a)) (sorted_collection st))"
  by (simp add: sorted_collection_def)

lemma saveMessageCollection_overwrites:
  "fs_write_ok w (outDir w @ ''/metadata.json'') \<Longrightarrow>
   \<exists>st'. saveMessageCollection w st = Returned () st' \<and>
         files st' (outDir w @ ''/metadata.json'') = Some (Json (sorted_collection st)) \<and>
         messages st' = messages st"
  by (simp add: saveMessageCollection_def writeFile_def)

text \<open>Below \<open>2 ^ 53\<close> the conversion is exact, and the flush is in the exact order.\<close>

lemma Number_exact:
  assumes "nat_of_digits s < 2 ^ 53"
  shows "Number s = nat_of_digits s"
proof -
  from assms have "bitlen (nat_of_digits s) \<le> 53" by (simp only: bitlen_le_iff)
  then have "round_double (nat_of_digits s) = nat_of_digits s"
    by (simp add: round_double_def)
  moreover have "(2::nat) ^ 53 \<le> 2 ^ 1024" by (rule power_increasing) simp_all
  ultimately show ?thesis using assms by (simp add: Number_def min_def)
qed

lemma sorted_collection_exact_below_2_53:
  assumes "\<forall>r \<in> snd ` set (messages st). nat_of_digits (rec_snowflake r) < 2 ^ 53"
  shows "sorted (map (\<lambda>a. nat_of_digits (rec_snowflake a)) (sorted_collection st))"
proof -
  have "Number (rec_snowflake a) = nat_of_digits (rec_snowflake a)"
    if "a \<in> set (sorted_collection st)" for a
    using that assms by (intro Number_exact) (simp only: set_sorted_collection)
  then have "map (\<lambda>a. nat_of_digits (rec_snowflake a)) (sorted_collection st) =
        map (\<lambda>a. Number (rec_snowflake a)) (sorted_collection st)"
    by (intro map_cong refl) simp
  then show ?thesis by (simp only: sorted_sorted_collection)
qed

lemma nat_of_digits_record_a: "nat_of_digits ''1234567890123456768'' = 1234567890123456768"
  by (simp add: nat_of_digits_def digit_val_def)

lemma nat_of_digits_record_b: "nat_of_digits ''1234567890123456769'' = 1234567890123456769"
  by (simp add: nat_of_digits_def digit_val_def)

lemma Number_record_a: "Number ''1234567890123456768'' = 1234567890123456768"
  by (simp add: Number_def nat_of_digits_record_a round_double_def)

lemma Number_record_b: "Number ''1234567890123456769'' = 1234567890123456768"
  by (simp add: Number_def nat_of_digits_record_b round_double_def)

text \<open>
  C5, at a failing input. The identifier of \<open>record_a\<close> is one less than that of
  \<open>record_b\<close>, and both convert to the same double. With \<open>record_b\<close> inserted first the
  comparator returns 0 and the stable sort leaves \<open>record_b\<close> before \<open>record_a\<close>: the
  snapshot is not in ascending order of the exact identifiers.
\<close>

theorem flush_order_not_exact:
  "nat_of_digits (rec_snowflake record_a) < nat_of_digits (rec_snowflake record_b) \<and>
   Number (rec_snowflake record_a) = Number (rec_snowflake record_b) \<and>
   sorted_collection
     \<lparr>messages = [(rec_snowflake record_b, record_b), (rec_snowflake record_a, record_a)],
      files = Map.empty, uuids_used = 2, awaits = 0\<rparr> = [record_b, record_a]"
  by (simp add: sorted_collection_def Map_values_def record_a_def record_b_def
      nat_of_digits_record_a nat_of_digits_record_b Number_record_a Number_record_b)

section \<open>Properties of the walk\<close>

lemma grows_refl [simp]: "grows st st"
  by (simp add: grows_def)

lemma grows_trans: "grows a b \<Longrightarrow> grows b c \<Longrightarrow> grows a c"
  by (auto simp: grows_def)

lemma grows_await: "grows st (state_of (await w st))"
  by (simp add: await_def grows_def)

lemma grows_then_do:
  assumes "grows st (state_of out)" and "\<And>x s. grows s (state_of (f x s))"
  shows "grows st (state_of (then_do out f))"
  using assms by (cases out) (auto intro: grows_trans)

lemma grows_awaiting:
  assumes "\<And>s. grows s (state_of (f s))"
  shows "grows st (state_of (awaiting w f st))"
  unfolding awaiting_def by (rule grows_then_do [OF grows_await]) (rule assms)

lemma grows_writeFile: "grows st (state_of (writeFile w path data st))"
  by (auto simp: writeFile_def grows_def)

lemma grows_fetch: "grows st (state_of (fetch w url st))"
  by (simp add: fetch_def split: awaited.splits)

lemma then_do_Returned:
  "then_do out f = Returned y st' \<longleftrightarrow> (\<exists>x s. out = Returned x s \<and> f x s = Returned y st')"
  by (cases out) auto

lemma await_Returned: "await w st = Returned x st' \<Longrightarrow> grows st st'"
  using grows_await [of st w] by simp

lemma writeFile_Returned:
  "writeFile w path data st = Returned x st' \<Longrightarrow> path \<in> dom (files st') \<and> grows st st'"
  by (auto simp: writeFile_def grows_def split: if_splits)

lemma awaiting_writeFile_Returned:
  "awaiting w (writeFile w path data) st = Returned x st' \<Longrightarrow> path \<in> dom (files st')"
  by (auto simp: awaiting_def then_do_Returned dest: writeFile_Returned)

lemma grows_download_one: "grows st (state_of (download_one w a st))"
  unfolding download_one_def
  by (intro grows_then_do grows_awaiting grows_fetch grows_await grows_writeFile)

lemma download_one_Returned:
  assumes "download_one w a st = Returned x st'"
  shows "download_path w (att_localFile a) \<in> dom (files st')"
proof -
  from assms obtain s3 s4 y where
    wr: "awaiting w (writeFile w (download_path w (att_localFile a)) (Bytes y)) s3 = Returned () s4"
    and aw: "await w s4 = Returned x st'"
    by (auto simp: download_one_def then_do_Returned)
  from awaiting_writeFile_Returned [OF wr] await_Returned [OF aw]
  show ?thesis by (auto simp: grows_def)
qed

lemma grows_downloadAttachments: "grows st (state_of (downloadAttachments w mid atts st))"
proof (induction atts arbitrary: st)
  case Nil
  show ?case by simp
next
  case (Cons a atts)
  show ?case
    using grows_download_one [of st w a] Cons.IH
    by (cases "download_one w a st") (auto intro: grows_trans)
qed

lemma downloadAttachments_Returned:
  "downloadAttachments w mid atts st = Returned x st' \<Longrightarrow>
   \<forall>a \<in> set atts. download_path w (att_localFile a) \<in> dom (files st')"
proof (induction atts arbitrary: st)
  case Nil
  show ?case by simp
next
  case (Cons a atts)
  from Cons.prems obtain s where one: "download_one w a st = Returned () s"
    and rest: "downloadAttachments w mid atts s = Returned x st'"
    by (cases "download_one w a st") auto
  have "grows s st'"
    using grows_downloadAttachments [of s w mid atts] rest by simp
  with download_one_Returned [OF one] Cons.IH [OF rest]
  show ?case by (auto simp: grows_def)
qed

lemma grows_saveTextContent:
  "grows st (state_of (saveTextContent w mid archiveId stars textContent st))"
  by (auto simp: saveTextContent_def intro: grows_awaiting grows_writeFile split: option.splits)

lemma saveTextContent_Returned:
  "saveTextContent w mid archiveId stars (Some t) st = Returned x st' \<Longrightarrow> t \<noteq> [] \<Longrightarrow>
   download_path w (textcontent_name archiveId stars) \<in> dom (files st')"
  by (auto simp: saveTextContent_def dest: awaiting_writeFile_Returned)

lemma getTextContent_nonempty: "getTextContent m = Some t \<Longrightarrow> t \<noteq> []"
  by (auto simp: getTextContent_def Let_def split: if_splits)

text \<open>\<^verbatim>\<open>processMessage\<close> does not touch the collection, however it ends.\<close>

lemma processMessage_grows:
  assumes "processMessage w n m st = Some out"
  shows "grows st (state_of out)"
proof -
  let ?st0 = "st\<lparr>uuids_used := uuids_used st + 1\<rparr>"
  let ?save = "then_do (saveTextContent w (msg_id m) (uuidV4 w (uuids_used st)) (getStars m)
                 (getTextContent m) ?st0) (\<lambda>_. await w)"
  have st0: "grows st ?st0" by (simp add: grows_def)
  have save: "grows ?st0 (state_of ?save)"
    by (intro grows_then_do grows_saveTextContent grows_await)
  show ?thesis
  proof (cases ?save)
    case (Returned u s1)
    with save have s1: "grows ?st0 s1" by simp
    show ?thesis
    proof (cases "getAttachments w n m (uuidV4 w (uuids_used st)) (getStars m)")
      case None
      with Returned assms show ?thesis by (simp add: processMessage_def Let_def)
    next
      case (Some res)
      show ?thesis
      proof (cases res)
        case (Inl e)
        with Some Returned assms s1 st0 show ?thesis
          by (auto simp: processMessage_def Let_def intro: grows_trans)
      next
        case (Inr atts)
        have "grows s1 (state_of (then_do (downloadAttachments w (msg_id m) atts s1)
                (\<lambda>_. Returned \<lparr>rec_snowflake = msg_id m,
                              rec_archiveId = uuidV4 w (uuids_used st),
                              rec_url = msg_url m,
                              rec_stars = getStars m,
                              rec_textContent = getTextContent m,
                              rec_attachments = atts\<rparr>)))"
          by (intro grows_then_do grows_downloadAttachments) simp
        with Inr Some Returned assms s1 st0 show ?thesis
          by (auto simp: processMessage_def Let_def intro: grows_trans)
      qed
    qed
  next
    case (Threw e s)
    with save st0 assms show ?thesis
      by (auto simp: processMessage_def Let_def intro: grows_trans)
  next
    case (Interrupted s)
    with save st0 assms show ?thesis
      by (auto simp: processMessage_def Let_def intro: grows_trans)
  qed
qed

text \<open>When \<^verbatim>\<open>processMessage\<close> returns a record, all the files of the record are written.\<close>

lemma processMessage_Returned:
  assumes "processMessage w n m st = Some (Returned r st')"
  shows "rec_snowflake r = msg_id m \<and> completed w st' r"
proof -
  let ?st0 = "st\<lparr>uuids_used := uuids_used st + 1\<rparr>"
  let ?id = "uuidV4 w (uuids_used st)"
  let ?save = "then_do (saveTextContent w (msg_id m) ?id (getStars m)
                 (getTextContent m) ?st0) (\<lambda>_. await w)"
  from assms obtain u s1 atts where
    save: "?save = Returned u s1"
    and atts: "getAttachments w n m ?id (getStars m) = Some (Inr atts)"
    and down: "then_do (downloadAttachments w (msg_id m) atts s1)
                (\<lambda>_. Returned \<lparr>rec_snowflake = msg_id m,
                              rec_archiveId = ?id,
                              rec_url = msg_url m,
                              rec_stars = getStars m,
                              rec_textContent = getTextContent m,
                              rec_attachments = atts\<rparr>) = Returned r st'"
    by (auto simp: processMessage_def Let_def split: outcome.splits option.splits sum.splits)
  from down obtain v where dl: "downloadAttachments w (msg_id m) atts s1 = Returned v st'"
    and r: "r = \<lparr>rec_snowflake = msg_id m, rec_archiveId = ?id, rec_url = msg_url m,
                 rec_stars = getStars m, rec_textContent = getTextContent m,
                 rec_attachments = atts\<rparr>"
    by (auto simp: then_do_Returned)
  have g: "grows s1 st'"
    using grows_downloadAttachments [of s1 w "msg_id m" atts] dl by simp
  from save obtain x s0 where
    sv: "saveTextContent w (msg_id m) ?id (getStars m) (getTextContent m) ?st0 = Returned x s0"
    and aw: "await w s0 = Returned u s1"
    by (auto simp: then_do_Returned)
  have saved: "download_path w (textcontent_name ?id (getStars m)) \<in> dom (files st')"
    if "getTextContent m = Some t" for t
    using saveTextContent_Returned [of w "msg_id m" ?id "getStars m" t ?st0 x s0]
      sv that getTextContent_nonempty [OF that] await_Returned [OF aw] g
    by (auto simp: grows_def)
  from downloadAttachments_Returned [OF dl] saved r
  show ?thesis by (auto simp: completed_def)
qed

lemma completed_grows: "grows st st' \<Longrightarrow> completed w st r \<Longrightarrow> completed w st' r"
  unfolding completed_def grows_def by blast

lemma completed_messages_update [simp]:
  "completed w (st\<lparr>messages := M\<rparr>) r = completed w st r"
  by (simp add: completed_def)

lemma set_Map_set: "set (Map_set M k v) \<subseteq> insert (k, v) (set M)"
  by (induction M) (auto simp: Map_set_def)

lemma Map_has_Map_set: "Map_has (Map_set M k v) k' \<longleftrightarrow> k' = k \<or> Map_has M k'"
  by (auto simp: Map_has_def Map_set_def dom_update)

lemma distinct_Map_set: "distinct (map fst M) \<Longrightarrow> distinct (map fst (Map_set M k v))"
  by (simp add: Map_set_def distinct_update)

lemma new_completedI:
  assumes "\<And>a b. (a, b) \<in> set (messages st) \<Longrightarrow> (a, b) \<notin> S \<Longrightarrow>
             a = rec_snowflake b \<and> completed w st b \<and>
             (\<exists>m \<in> M. \<exists>s s'. isStarboardMessage m \<and> msg_id m = a \<and>
                             processMessage w n m s = Some (Returned b s'))"
  shows "new_completed w n S M st"
  unfolding new_completed_def
proof (intro ballI)
  fix x assume x: "x \<in> set (messages st) - S"
  obtain a b where ab: "x = (a, b)" by (cases x)
  with x have "(a, b) \<in> set (messages st)" "(a, b) \<notin> S" by simp_all
  from assms [OF this] ab
  show "case x of (k, r) \<Rightarrow>
          k = rec_snowflake r \<and> completed w st r \<and>
          (\<exists>m \<in> M. \<exists>s s'. isStarboardMessage m \<and> msg_id m = k \<and>
                          processMessage w n m s = Some (Returned r s'))"
    by auto
qed

lemma new_completedD:
  assumes "new_completed w n S M st" and "(a, b) \<in> set (messages st)" and "(a, b) \<notin> S"
  shows "a = rec_snowflake b \<and> completed w st b \<and>
         (\<exists>m \<in> M. \<exists>s s'. isStarboardMessage m \<and> msg_id m = a \<and>
                         processMessage w n m s = Some (Returned b s'))"
  using assms unfolding new_completed_def by blast

lemma new_completed_grows:
  assumes "grows st st'" and "new_completed w n S M st"
  shows "new_completed w n S M st'"
proof (rule new_completedI)
  fix a b assume "(a, b) \<in> set (messages st')" and notin: "(a, b) \<notin> S"
  with assms(1) have "(a, b) \<in> set (messages st)" by (simp add: grows_def)
  from new_completedD [OF assms(2) this notin] completed_grows [OF assms(1)]
  show "a = rec_snowflake b \<and> completed w st' b \<and>
        (\<exists>m \<in> M. \<exists>s s'. isStarboardMessage m \<and> msg_id m = a \<and>
                        processMessage w n m s = Some (Returned b s'))"
    by blast
qed

lemma new_completed_add:
  assumes inv: "new_completed w n S M st" and written: "completed w st r"
    and k: "k = rec_snowflake r"
    and m: "m \<in> M" "isStarboardMessage m" "msg_id m = k"
    and pm: "processMessage w n m s = Some (Returned r s')"
  shows "new_completed w n S M (st\<lparr>messages := Map_set (messages st) k r\<rparr>)"
proof (rule new_completedI)
  let ?st = "st\<lparr>messages := Map_set (messages st) k r\<rparr>"
  fix a b assume "(a, b) \<in> set (messages ?st)" and notin: "(a, b) \<notin> S"
  then have mem: "(a, b) \<in> set (Map_set (messages st) k r)" by simp
  have "a = rec_snowflake b \<and> completed w st b \<and>
        (\<exists>m \<in> M. \<exists>s s'. isStarboardMessage m \<and> msg_id m = a \<and>
                        processMessage w n m s = Some (Returned b s'))"
  proof (cases "(a, b) = (k, r)")
    case True
    then have "a = k" and "b = r" by simp_all
    with written k m pm show ?thesis by blast
  next
    case False
    with mem set_Map_set [of "messages st" k r] have "(a, b) \<in> set (messages st)"
      by blast
    from new_completedD [OF inv this notin] show ?thesis .
  qed
  moreover have "completed w ?st b = completed w st b" by simp
  ultimately show "a = rec_snowflake b \<and> completed w ?st b \<and>
        (\<exists>m \<in> M. \<exists>s s'. isStarboardMessage m \<and> msg_id m = a \<and>
                        processMessage w n m s = Some (Returned b s'))"
    by blast
qed

text \<open>
  However the loop over a page ends, every new entry of the collection is the completed
  record that \<^verbatim>\<open>processMessage\<close> returned for a starboard message of the page.
\<close>

lemma walk_page_new_completed:
  "walk_page w n ms st = Some out \<Longrightarrow> set ms \<subseteq> M \<Longrightarrow> new_completed w n S M st \<Longrightarrow>
   new_completed w n S M (state_of out)"
proof (induction ms arbitrary: st)
  case Nil
  then show ?case by auto
next
  case (Cons m ms)
  from Cons.prems(2) have sub: "set ms \<subseteq> M" and m: "m \<in> M" by simp_all
  show ?case
  proof (cases "\<not> isStarboardMessage m \<or> Map_has (messages st) (msg_id m)")
    case True
    with Cons.prems have "walk_page w n ms st = Some out" by (auto split: if_splits)
    then show ?thesis using sub Cons.prems(3) by (rule Cons.IH)
  next
    case False
    show ?thesis
    proof (cases "processMessage w n m st")
      case None
      with False Cons.prems show ?thesis by simp
    next
      case (Some res)
      note g = processMessage_grows [OF Some]
      show ?thesis
      proof (cases res)
        case (Returned r st')
        note pm = Some [unfolded Returned]
        from processMessage_Returned [OF pm]
        have r: "rec_snowflake r = msg_id m" "completed w st' r" by simp_all
        from g Returned have "new_completed w n S M st'"
          using new_completed_grows [OF _ Cons.prems(3)] by simp
        from new_completed_add [OF this r(2) r(1) [symmetric] m _ refl pm] False
        have "new_completed w n S M (st'\<lparr>messages := Map_set (messages st') (msg_id m) r\<rparr>)"
          by simp
        moreover have
          "walk_page w n ms (st'\<lparr>messages := Map_set (messages st') (msg_id m) r\<rparr>) = Some out"
          using Cons.prems(1) False Some Returned by simp
        ultimately show ?thesis using sub by (intro Cons.IH)
      next
        case (Threw e s)
        with False Some Cons.prems g show ?thesis
          by (auto intro: new_completed_grows)
      next
        case (Interrupted s)
        with False Some Cons.prems g show ?thesis
          by (auto intro: new_completed_grows)
      qed
    qed
  qed
qed

text \<open>
  When the loop over a page returns, the collection holds the identifiers it held before
  and those of the starboard messages of the page, and no other.
\<close>

lemma walk_page_keys:
  "walk_page w n ms st = Some (Returned () st') \<Longrightarrow>
   Map_has (messages st') k \<longleftrightarrow>
     Map_has (messages st) k \<or> (\<exists>m \<in> set ms. isStarboardMessage m \<and> msg_id m = k)"
proof (induction ms arbitrary: st)
  case Nil
  then show ?case by simp
next
  case (Cons m ms)
  show ?case
  proof (cases "\<not> isStarboardMessage m \<or> Map_has (messages st) (msg_id m)")
    case True
    with Cons.prems have "walk_page w n ms st = Some (Returned () st')"
      by (auto split: if_splits)
    from Cons.IH [OF this] True show ?thesis by auto
  next
    case False
    from False Cons.prems(1) obtain r s where
      pm: "processMessage w n m st = Some (Returned r s)"
      and rest: "walk_page w n ms (s\<lparr>messages := Map_set (messages s) (msg_id m) r\<rparr>) =
                   Some (Returned () st')"
      by (auto split: option.splits outcome.splits)
    from processMessage_grows [OF pm] have "messages s = messages st" by (simp add: grows_def)
    with Cons.IH [OF rest] False show ?thesis
      by (auto simp: Map_has_Map_set)
  qed
qed

text \<open>
  Where the loop over a page ends. When it returns, all the page is done. When it stops,
  it stops in the processing of one message \<open>ms ! j\<close>, a starboard message that the
  collection does not hold; the loop over the \<open>j\<close> messages before it has returned, in the
  state in which that processing began, and the collection is still the one of that state.
\<close>

lemma walk_page_pinned:
  "walk_page w n ms st = Some out \<Longrightarrow>
   \<exists>j st'. j \<le> length ms \<and>
           walk_page w n (take j ms) st = Some (Returned () st') \<and>
           grows st' (state_of out) \<and>
           (returned out \<longrightarrow> j = length ms \<and> st' = state_of out) \<and>
           (\<not> returned out \<longrightarrow> j < length ms \<and> in_progress w n (ms ! j) st' out)"
proof (induction ms arbitrary: st)
  case Nil
  then show ?case by auto
next
  case (Cons m ms)
  have step: ?case
    if rest: "walk_page w n ms st1 = Some out"
      and head: "\<And>j. walk_page w n (take (Suc j) (m # ms)) st = walk_page w n (take j ms) st1"
    for st1
  proof -
    from Cons.IH [OF rest] obtain j st' where j: "j \<le> length ms"
      and pre: "walk_page w n (take j ms) st1 = Some (Returned () st')"
      and g: "grows st' (state_of out)"
      and ret: "returned out \<longrightarrow> j = length ms \<and> st' = state_of out"
      and stop: "\<not> returned out \<longrightarrow> j < length ms \<and> in_progress w n (ms ! j) st' out"
      by blast
    have "Suc j \<le> length (m # ms) \<and>
          walk_page w n (take (Suc j) (m # ms)) st = Some (Returned () st') \<and>
          grows st' (state_of out) \<and>
          (returned out \<longrightarrow> Suc j = length (m # ms) \<and> st' = state_of out) \<and>
          (\<not> returned out \<longrightarrow> Suc j < length (m # ms) \<and> in_progress w n ((m # ms) ! Suc j) st' out)"
      using j pre g ret stop head [of j] by simp
    then show ?thesis by blast
  qed
  show ?case
  proof (cases "\<not> isStarboardMessage m \<or> Map_has (messages st) (msg_id m)")
    case True
    with Cons.prems have rest: "walk_page w n ms st = Some out" by (auto split: if_splits)
    show ?thesis
    proof (rule step [OF rest])
      fix j
      show "walk_page w n (take (Suc j) (m # ms)) st = walk_page w n (take j ms) st"
        using True by auto
    qed
  next
    case False
    show ?thesis
    proof (cases "processMessage w n m st")
      case None
      with False Cons.prems show ?thesis by simp
    next
      case (Some res)
      note g = processMessage_grows [OF Some]
      have stopped: ?thesis if "\<not> returned out" "stopped_like res out" "state_of out = state_of res"
      proof -
        have "0 \<le> length (m # ms) \<and>
              walk_page w n (take 0 (m # ms)) st = Some (Returned () st) \<and>
              grows st (state_of out) \<and>
              (returned out \<longrightarrow> 0 = length (m # ms) \<and> st = state_of out) \<and>
              (\<not> returned out \<longrightarrow> 0 < length (m # ms) \<and> in_progress w n ((m # ms) ! 0) st out)"
          using that g False Some by (auto simp: in_progress_def)
        then show ?thesis by blast
      qed
      show ?thesis
      proof (cases res)
        case (Returned r st1)
        have rest:
          "walk_page w n ms (st1\<lparr>messages := Map_set (messages st1) (msg_id m) r\<rparr>) = Some out"
          using Cons.prems(1) False Some Returned by simp
        show ?thesis
        proof (rule step [OF rest])
          fix j
          show "walk_page w n (take (Suc j) (m # ms)) st =
                walk_page w n (take j ms) (st1\<lparr>messages := Map_set (messages st1) (msg_id m) r\<rparr>)"
            using False Some Returned by simp
        qed
      next
        case (Threw e s)
        with False Some Cons.prems show ?thesis by (intro stopped) auto
      next
        case (Interrupted s)
        with False Some Cons.prems show ?thesis by (intro stopped) auto
      qed
    qed
  qed
qed

text \<open>The completeness of the new entries holds for the whole walk over the pages.\<close>

lemma walk_new_completed:
  "walk w n pages messageId st = Some out \<Longrightarrow> new_completed w n S UNIV st \<Longrightarrow>
   new_completed w n S UNIV (state_of out)"
proof (induction pages arbitrary: messageId st)
  case 0
  then show ?case by simp
next
  case (Suc pages)
  let ?fetch = "\<lambda>st. case history_fetch w messageId of
                        Rejected \<Rightarrow> Threw FetchError st
                      | Resolved fetchedMessages \<Rightarrow> Returned fetchedMessages st"
  have g: "grows st (state_of (awaiting w ?fetch st))"
    by (rule grows_awaiting) (simp split: awaited.splits)
  show ?case
  proof (cases "awaiting w ?fetch st")
    case (Returned page s)
    with g have s: "new_completed w n S UNIV s"
      using new_completed_grows [OF _ Suc.prems(2)] by simp
    show ?thesis
    proof (cases "page = []")
      case True
      with Returned Suc.prems s show ?thesis by auto
    next
      case False
      show ?thesis
      proof (cases "walk_page w n (rev page) s")
        case None
        with False Returned Suc.prems show ?thesis by simp
      next
        case (Some res)
        have inv: "new_completed w n S UNIV (state_of res)"
          using Some _ s by (rule walk_page_new_completed) simp
        show ?thesis
        proof (cases res)
          case inner: (Returned u s')
          show ?thesis
          proof (cases "msg_id (last (rev page)) = []")
            case True
            with inner Some False Returned Suc.prems inv show ?thesis by (auto simp: Let_def)
          next
            case nonempty: False
            with inner Some False Returned Suc.prems(1)
            have "walk w n pages (msg_id (last (rev page))) s' = Some out"
              by (simp add: Let_def)
            moreover from inv inner have "new_completed w n S UNIV s'" by simp
            ultimately show ?thesis by (rule Suc.IH)
          qed
        next
          case (Threw e s')
          with Some False Returned Suc.prems inv show ?thesis by auto
        next
          case (Interrupted s')
          with Some False Returned Suc.prems inv show ?thesis by auto
        qed
      qed
    qed
  next
    case (Threw e s)
    with g Suc.prems show ?thesis by (auto intro: new_completed_grows)
  next
    case (Interrupted s)
    with g Suc.prems show ?thesis by (auto intro: new_completed_grows)
  qed
qed

lemmas run_defs = isStarboardMessage_def star_prefix_def star_glyph_def Map_has_def Map_set_def
  processMessage_def getStars_def starCountRegex_at_def is_digit_def nat_of_digits_def
  digit_val_def round_double_def getTextContent_def blank_line_def saveTextContent_def
  awaiting_def await_def writeFile_def fetch_def download_path_def textcontent_name_def
  download_one_def getAttachments_def file_extension_def extension_of_def strip_large_def
  localFile_name_def Number_toString_def digit_char_def

text \<open>
  C9. However the loop over the messages of a page ends (it returns, a download or a write
  fails, or the interrupt signal arrives at any suspension point), the collection is the one
  that the loop leaves when it is run to completion over the first \<open>j\<close> messages of the page,
  where \<open>j\<close> is all the page when the loop returned and otherwise the position of the message
  in progress, a starboard message that the collection does not hold. The collection then
  holds the identifiers it held before the loop and those of the starboard messages among
  these \<open>j\<close>, and no other; every entry added is the record that \<^verbatim>\<open>processMessage\<close> returned
  for such a message, with all its files written. A flush in that state serialises exactly
  the records of the collection, and the interrupt handler writes it to the snapshot file.
\<close>

theorem collection_holds_completed_records:
  assumes "walk_page w n ms st = Some out"
  shows "\<exists>j st'. j \<le> length ms \<and>
           walk_page w n (take j ms) st = Some (Returned () st') \<and>
           messages (state_of out) = messages st' \<and>
           (returned out \<longrightarrow> j = length ms) \<and>
           (\<not> returned out \<longrightarrow> j < length ms \<and> in_progress w n (ms ! j) st' out) \<and>
           (\<forall>k. Map_has (messages (state_of out)) k \<longleftrightarrow>
                  Map_has (messages st) k \<or>
                  (\<exists>m \<in> set (take j ms). isStarboardMessage m \<and> msg_id m = k)) \<and>
           new_completed w n (set (messages st)) (set (take j ms)) (state_of out) \<and>
           set (sorted_collection (state_of out)) = snd ` set (messages (state_of out)) \<and>
           length (sorted_collection (state_of out)) = length (messages (state_of out)) \<and>
           (fs_write_ok w (outDir w @ ''/metadata.json'') \<longrightarrow>
              (\<exists>st''. on_SIGINT w (state_of out) = Returned () st'' \<and>
                      files st'' (outDir w @ ''/metadata.json'') =
                        Some (Json (sorted_collection (state_of out)))))"
proof -
  from walk_page_pinned [OF assms] obtain j st' where j: "j \<le> length ms"
    and pre: "walk_page w n (take j ms) st = Some (Returned () st')"
    and g: "grows st' (state_of out)"
    and ret: "returned out \<longrightarrow> j = length ms \<and> st' = state_of out"
    and stop: "\<not> returned out \<longrightarrow> j < length ms \<and> in_progress w n (ms ! j) st' out"
    by blast
  from g have same: "messages (state_of out) = messages st'" by (simp add: grows_def)
  have keys: "\<forall>k. Map_has (messages (state_of out)) k \<longleftrightarrow>
      Map_has (messages st) k \<or> (\<exists>m \<in> set (take j ms). isStarboardMessage m \<and> msg_id m = k)"
    using walk_page_keys [OF pre] by (simp only: same) blast
  have "new_completed w n (set (messages st)) (set (take j ms)) st"
    by (simp add: new_completed_def)
  from walk_page_new_completed [OF pre _ this]
  have "new_completed w n (set (messages st)) (set (take j ms)) st'" by simp
  with g have new: "new_completed w n (set (messages st)) (set (take j ms)) (state_of out)"
    by (rule new_completed_grows)
  have flush: "fs_write_ok w (outDir w @ ''/metadata.json'') \<longrightarrow>
      (\<exists>st''. on_SIGINT w (state_of out) = Returned () st'' \<and>
              files st'' (outDir w @ ''/metadata.json'') =
                Some (Json (sorted_collection (state_of out))))"
    using saveMessageCollection_overwrites [of w "state_of out"]
    by (auto simp: on_SIGINT_def)
  from j pre same ret stop keys new flush
  have "j \<le> length ms \<and>
        walk_page w n (take j ms) st = Some (Returned () st') \<and>
        messages (state_of out) = messages st' \<and>
        (returned out \<longrightarrow> j = length ms) \<and>
        (\<not> returned out \<longrightarrow> j < length ms \<and> in_progress w n (ms ! j) st' out) \<and>
        (\<forall>k. Map_has (messages (state_of out)) k \<longleftrightarrow>
               Map_has (messages st) k \<or>
               (\<exists>m \<in> set (take j ms). isStarboardMessage m \<and> msg_id m = k)) \<and>
        new_completed w n (set (messages st)) (set (take j ms)) (state_of out) \<and>
        set (sorted_collection (state_of out)) = snd ` set (messages (state_of out)) \<and>
        length (sorted_collection (state_of out)) = length (messages (state_of out)) \<and>
        (fs_write_ok w (outDir w @ ''/metadata.json'') \<longrightarrow>
           (\<exists>st''. on_SIGINT w (state_of out) = Returned () st'' \<and>
                   files st'' (outDir w @ ''/metadata.json'') =
                     Some (Json (sorted_collection (state_of out)))))"
    by (simp add: set_sorted_collection length_sorted_collection)
  then show ?thesis by blast
qed

text \<open>
  The run of \<open>interrupted_world\<close> over the page \<open>[starred_text, starred_image]\<close>: the signal
  arrives in the download of the second message, and the snapshot holds the one record of
  the first.
\<close>

theorem collection_holds_completed_records_witness:
  "walk_page interrupted_world 0 [starred_text, starred_image] initial_state =
     Some (Interrupted interrupted_state) \<and>
   messages interrupted_state = [(''1001'', archived_text)] \<and>
   Map_has (messages interrupted_state) (msg_id starred_text) \<and>
   \<not> Map_has (messages interrupted_state) (msg_id starred_image) \<and>
   (\<exists>st'. on_SIGINT interrupted_world interrupted_state = Returned () st' \<and>
          files st' ''./output/metadata.json'' = Some (Json [archived_text]))"
proof -
  have run: "walk_page interrupted_world 0 [starred_text, starred_image] initial_state =
      Some (Interrupted interrupted_state)"
    by (simp add: run_defs js_defs resolver_simps interrupted_world_def example_world_def
        starred_text_def starred_image_def initial_state_def interrupted_state_def
        archived_text_def Let_def)
  have sorted: "sorted_collection interrupted_state = [archived_text]"
    by (simp add: sorted_collection_def Map_values_def interrupted_state_def)
  have ok: "fs_write_ok interrupted_world (outDir interrupted_world @ ''/metadata.json'')"
    and dir: "outDir interrupted_world @ ''/metadata.json'' = ''./output/metadata.json''"
    by (simp_all add: interrupted_world_def example_world_def)
  have present: "Map_has (messages interrupted_state) (msg_id starred_text)"
    and absent: "\<not> Map_has (messages interrupted_state) (msg_id starred_image)"
    by (simp_all add: Map_has_def interrupted_state_def starred_text_def starred_image_def)
  from collection_holds_completed_records [OF run] run sorted ok dir present absent
  show ?thesis
    by (auto simp: interrupted_state_def)
qed

section \<open>Idempotence of the walk\<close>

text \<open>A message processed earlier in the walk is present in the collection afterwards.\<close>

lemma walk_page_Map_has:
  "walk_page w n ms st = Some (Returned () st') \<Longrightarrow>
   Map_has (messages st) k \<or> (\<exists>m \<in> set ms. isStarboardMessage m \<and> msg_id m = k) \<Longrightarrow>
   Map_has (messages st') k"
  by (simp only: walk_page_keys)

text \<open>A record loaded from a prior snapshot is present in the collection.\<close>

lemma Map_has_foldl_set:
  "Map_has (foldl (\<lambda>m r. Map_set m (rec_snowflake r) r) M rs) k \<longleftrightarrow>
   Map_has M k \<or> k \<in> rec_snowflake ` set rs"
  by (induction rs arbitrary: M) (auto simp: Map_has_Map_set)

lemma Map_has_load_collection:
  "Map_has (messages (load_collection collection st)) k \<longleftrightarrow>
   Map_has (messages st) k \<or> k \<in> rec_snowflake ` set collection"
  by (simp add: load_collection_def Map_has_foldl_set)

text \<open>The collection never holds two records under one \<open>sourceId\<close>.\<close>

lemma walk_page_distinct:
  "walk_page w n ms st = Some out \<Longrightarrow> distinct (map fst (messages st)) \<Longrightarrow>
   distinct (map fst (messages (state_of out)))"
proof (induction ms arbitrary: st)
  case Nil
  then show ?case by auto
next
  case (Cons m ms)
  show ?case
  proof (cases "\<not> isStarboardMessage m \<or> Map_has (messages st) (msg_id m)")
    case True
    with Cons.prems have "walk_page w n ms st = Some out" by (auto split: if_splits)
    then show ?thesis using Cons.prems(2) by (rule Cons.IH)
  next
    case False
    show ?thesis
    proof (cases "processMessage w n m st")
      case None
      with False Cons.prems show ?thesis by simp
    next
      case (Some res)
      from processMessage_grows [OF Some] have same: "messages (state_of res) = messages st"
        by (simp add: grows_def)
      show ?thesis
      proof (cases res)
        case (Returned r st')
        with same Cons.prems(2)
        have "distinct (map fst (messages (st'\<lparr>messages := Map_set (messages st') (msg_id m) r\<rparr>)))"
          by (simp add: distinct_Map_set)
        moreover have
          "walk_page w n ms (st'\<lparr>messages := Map_set (messages st') (msg_id m) r\<rparr>) = Some out"
          using Cons.prems(1) False Some Returned by simp
        ultimately show ?thesis by (rule Cons.IH [rotated])
      next
        case (Threw e s)
        with False Some Cons.prems same show ?thesis by auto
      next
        case (Interrupted s)
        with False Some Cons.prems same show ?thesis by auto
      qed
    qed
  qed
qed

lemma walk_page_all_present:
  "\<forall>m \<in> set ms. isStarboardMessage m \<longrightarrow> Map_has (messages st) (msg_id m) \<Longrightarrow>
   walk_page w n ms st = Some (Returned () st)"
  by (induction ms) auto

text \<open>Walking a page a second time changes nothing.\<close>

lemma second_walk_is_noop:
  assumes "walk_page w n ms st = Some (Returned () st')"
  shows "walk_page w n' ms st' = Some (Returned () st')"
proof (rule walk_page_all_present)
  show "\<forall>m \<in> set ms. isStarboardMessage m \<longrightarrow> Map_has (messages st') (msg_id m)"
    using walk_page_Map_has [OF assms] by blast
qed

lemma walk_page_drop_present:
  "Map_has (messages st) (msg_id m) \<Longrightarrow>
   walk_page w n (before @ m # rest) st = walk_page w n (before @ rest) st"
proof (induction before arbitrary: st)
  case Nil
  then show ?case by simp
next
  case (Cons a before)
  show ?case
  proof (cases "\<not> isStarboardMessage a \<or> Map_has (messages st) (msg_id a)")
    case True
    with Cons.IH [OF Cons.prems] show ?thesis by auto
  next
    case False
    show ?thesis
    proof (cases "processMessage w n a st")
      case None
      with False show ?thesis by simp
    next
      case (Some res)
      from processMessage_grows [OF Some] have same: "messages (state_of res) = messages st"
        by (simp add: grows_def)
      show ?thesis
      proof (cases res)
        case (Returned r st')
        with same Cons.prems have
          "Map_has (messages (st'\<lparr>messages := Map_set (messages st') (msg_id a) r\<rparr>)) (msg_id m)"
          by (simp add: Map_has_Map_set)
        from Cons.IH [OF this] False Some Returned show ?thesis by simp
      next
        case (Threw e s)
        with False Some show ?thesis by simp
      next
        case (Interrupted s)
        with False Some show ?thesis by simp
      qed
    qed
  qed
qed

text \<open>
  C6. A message whose \<open>sourceId\<close> is present in the collection is skipped, wherever the
  loop meets it: the loop ends as it does without that message, and met alone the message
  leaves the state as it is, so that the collection, the files written and the identifiers
  generated are what they were.
\<close>

theorem present_sourceId_is_skipped:
  assumes "Map_has (messages st) (msg_id m)"
  shows "walk_page w n (before @ m # rest) st = walk_page w n (before @ rest) st \<and>
         walk_page w n [m] st = Some (Returned () st)"
  using assms walk_page_drop_present [OF assms, of w n before rest] by simp

theorem present_sourceId_is_skipped_witness:
  "Map_has (messages interrupted_state) (msg_id starred_text) \<and>
   walk_page example_world 0 [starred_text] interrupted_state =
     Some (Returned () interrupted_state)"
proof -
  have present: "Map_has (messages interrupted_state) (msg_id starred_text)"
    by (simp add: Map_has_def interrupted_state_def starred_text_def)
  from present_sourceId_is_skipped [OF present, of example_world 0 "[]" "[]"] present
  show ?thesis by simp
qed

section \<open>The fuel of the resolution\<close>

text \<open>
  A result obtained with some fuel is the result with any larger fuel: \<open>None\<close> only ever
  says that the fuel did not suffice.
\<close>

lemma all_returned_mono:
  assumes "all_returned (map f xs) = Some ys"
    and "\<And>x y. x \<in> set xs \<Longrightarrow> f x = Some y \<Longrightarrow> g x = Some y"
  shows "all_returned (map g xs) = Some ys"
  using assms
proof (induction xs arbitrary: ys)
  case Nil
  then show ?case by simp
next
  case (Cons x xs)
  from Cons.prems(1) obtain y ys' where fx: "f x = Some y"
    and rest: "all_returned (map f xs) = Some ys'" and ys: "ys = y # ys'"
    by (cases "f x"; cases "all_returned (map f xs)") auto
  from Cons.prems(2) [OF _ fx] have "g x = Some y" by simp
  moreover from Cons.IH [OF rest] Cons.prems(2) have "all_returned (map g xs) = Some ys'"
    by simp
  ultimately show ?case by (simp add: ys)
qed

lemma resolver_fuel_Suc:
  "(getAttachmentUrls w n m = Some r \<longrightarrow> getAttachmentUrls w (Suc n) m = Some r)"
  "(getAdvancedAttachments w n m = Some r' \<longrightarrow> getAdvancedAttachments w (Suc n) m = Some r')"
proof (induction w n m and w n m arbitrary: r and r'
    rule: getAttachmentUrls_getAdvancedAttachments.induct)
  case (1 w n message)
  let ?links = "flatMap (row_button_urls (\<lambda>url. startsWith url permalink_prefix))
                  (msg_components message)"
  let ?f = "\<lambda>n message. case message of
                Val m \<Rightarrow> (case n of 0 \<Rightarrow> None
                          | Suc k \<Rightarrow> map_option Val (getAttachmentUrls w k m))
              | _ \<Rightarrow> Some Undefined"
  show ?case
  proof (cases "promise_all (map (fetch_linked w) ?links)")
    case Rejected
    then show ?thesis
      by (simp add: getAdvancedAttachments.simps [of w _ message])
  next
    case (Resolved msgs)
    show ?thesis
    proof
      assume a: "getAdvancedAttachments w n message = Some r'"
      then obtain results where res: "all_returned (map (?f n) msgs) = Some results"
        and r': "r' = flat (filter (\<lambda>attachments. attachments \<noteq> Null) results)"
        using Resolved
        by (auto simp: getAdvancedAttachments.simps [of w n message] split: option.splits)
      have "all_returned (map (?f (Suc n)) msgs) = Some results"
      proof (rule all_returned_mono [OF res])
        fix x y assume x: "x \<in> set msgs" and fx: "?f n x = Some y"
        show "?f (Suc n) x = Some y"
        proof (cases x)
          case (Val m')
          with fx obtain k z where n: "n = Suc k" and z: "getAttachmentUrls w k m' = Some z"
            and y: "y = Val z"
            by (cases n) auto
          from "1.IH" [OF refl Resolved x Val n] z
          have "getAttachmentUrls w (Suc k) m' = Some z" by simp
          with Val n y show ?thesis by simp
        qed (use fx in simp_all)
      qed
      moreover have "?f (Suc n) = (\<lambda>message. case message of
                     Val m \<Rightarrow> map_option Val (getAttachmentUrls w n m)
                   | _ \<Rightarrow> Some Undefined)"
        by (auto simp: fun_eq_iff split: maybe.splits)
      ultimately have "all_returned (map (\<lambda>message. case message of
                     Val m \<Rightarrow> map_option Val (getAttachmentUrls w n m)
                   | _ \<Rightarrow> Some Undefined) msgs) = Some results"
        by (simp only:)
      with Resolved r' show "getAdvancedAttachments w (Suc n) message = Some r'"
        by (simp add: getAdvancedAttachments.simps [of w "Suc n" message])
    qed
  qed
next
  case (2 w n message)
  show ?case
  proof (cases "0 < length (flatMap (row_button_urls (\<lambda>url. \<not> startsWith url permalink_prefix))
                   (msg_components message)) \<and>
                0 < length (filter is_cdn
                   (flatMap (row_button_urls (\<lambda>url. \<not> startsWith url permalink_prefix))
                      (msg_components message)))")
    case True
    from "2.IH" [OF refl refl refl refl True] True show ?thesis
      by (auto simp: getAttachmentUrls.simps [of w _ message] Let_def split: option.splits)
  next
    case False
    then show ?thesis
      by (auto simp: getAttachmentUrls.simps [of w _ message] Let_def)
  qed
qed


lemma getAttachmentUrls_fuel_mono:
  assumes "getAttachmentUrls w n m = Some r" and "n \<le> n'"
  shows "getAttachmentUrls w n' m = Some r"
  using assms(2,1)
proof (induction n' rule: dec_induct)
  case base
  then show ?case .
next
  case (step k)
  then show ?case by (simp add: resolver_fuel_Suc(1))
qed

lemma getAttachments_fuel_mono:
  "getAttachments w n m archiveId stars = Some res \<Longrightarrow> n \<le> n' \<Longrightarrow>
   getAttachments w n' m archiveId stars = Some res"
  by (auto simp: getAttachments_def split: option.splits
      dest: getAttachmentUrls_fuel_mono [where n' = n'])

lemma processMessage_fuel_mono:
  assumes "processMessage w n m st = Some out" and "n \<le> n'"
  shows "processMessage w n' m st = Some out"
proof -
  have "getAttachments w n' m archiveId stars = Some res"
    if "getAttachments w n m archiveId stars = Some res" for archiveId stars res
    using that assms(2) by (rule getAttachments_fuel_mono)
  with assms(1) show ?thesis
    by (auto simp: processMessage_def Let_def split: outcome.splits option.splits)
qed

lemma walk_page_fuel_mono:
  "walk_page w n ms st = Some out \<Longrightarrow> n \<le> n' \<Longrightarrow> walk_page w n' ms st = Some out"
proof (induction ms arbitrary: st)
  case Nil
  then show ?case by simp
next
  case (Cons m ms)
  show ?case
  proof (cases "\<not> isStarboardMessage m \<or> Map_has (messages st) (msg_id m)")
    case True
    with Cons.prems(1) have "walk_page w n ms st = Some out" by (auto split: if_splits)
    from Cons.IH [OF this Cons.prems(2)] True show ?thesis by auto
  next
    case False
    from False Cons.prems(1) obtain res where pm: "processMessage w n m st = Some res"
      by (auto split: option.splits)
    note pm' = processMessage_fuel_mono [OF pm Cons.prems(2)]
    show ?thesis
    proof (cases res)
      case (Returned r st')
      with False pm Cons.prems(1) have
        "walk_page w n ms (st'\<lparr>messages := Map_set (messages st') (msg_id m) r\<rparr>) = Some out"
        by simp
      from Cons.IH [OF this Cons.prems(2)] False pm' Returned show ?thesis by simp
    next
      case (Threw e s)
      with False pm pm' Cons.prems(1) show ?thesis by simp
    next
      case (Interrupted s)
      with False pm pm' Cons.prems(1) show ?thesis by simp
    qed
  qed
qed

end
